theory Spec2Isabelle
  imports Main
begin

section \<open>Strings of the host language\<close>

text \<open>
  A string is a list of code units. The model covers the code units U+0000 to U+00FF
  (one \<^typ>\<open>char\<close> each); \<open>length\<close> is the source's \<open>.length\<close>.
\<close>

definition LF :: char where
  "LF = CHR 0x0A"

definition isWhiteSpace :: "char \<Rightarrow> bool" where
  \<comment> \<open>what \<open>String.prototype.trim\<close> strips: TAB, LF, VT, FF, CR, SP and NBSP\<close>
  "isWhiteSpace c = ((of_char c :: nat) \<in> {9, 10, 11, 12, 13, 32, 160})"

definition trim :: "string \<Rightarrow> string" where
  "trim s = rev (dropWhile isWhiteSpace (rev (dropWhile isWhiteSpace s)))"

definition toLowerCase_char :: "char \<Rightarrow> char" where
  \<comment> \<open>A to Z, and the capital letters of U+00C0 to U+00DE (U+00D7 is the times sign)\<close>
  "toLowerCase_char c =
     (let n = (of_char c :: nat)
      in if (65 \<le> n \<and> n \<le> 90) \<or> (192 \<le> n \<and> n \<le> 222 \<and> n \<noteq> 215)
         then char_of (n + 32) else c)"

definition toLowerCase :: "string \<Rightarrow> string" where
  "toLowerCase s = map toLowerCase_char s"

text \<open>
  \<open>hay.indexOf(needle, from)\<close>: the start position is clamped to the length of \<open>hay\<close>,
  the result is the least position at or after it where \<open>needle\<close> occurs, and \<open>-1\<close>
  (\<open>None\<close>) when there is none. The empty needle occurs at the clamped start.
\<close>

fun first_occurrence :: "string \<Rightarrow> string \<Rightarrow> nat option" where
  "first_occurrence needle [] = (if needle = [] then Some 0 else None)"
| "first_occurrence needle (h # hs) =
     (if take (length needle) (h # hs) = needle then Some 0
      else map_option Suc (first_occurrence needle hs))"

definition indexOf :: "string \<Rightarrow> string \<Rightarrow> nat \<Rightarrow> nat option" where
  "indexOf hay needle from =
     (let start = min from (length hay)
      in map_option (\<lambda>k. start + k) (first_occurrence needle (drop start hay)))"

section \<open>SearchProvider: search in a single document\<close>

type_synonym uri = string

record Position =
  line :: nat
  character :: nat

record Range =
  start :: Position
  endp :: Position

record SearchResult =
  uri :: "uri option"
  range :: "Range option"
  detail :: string

text \<open>
  A thrown value: an \<open>Error\<close> object with its message, or a value that is no instance
  of \<open>Error\<close>.
\<close>

datatype js_error = Error string | NotAnError

definition SearchCancelled :: js_error where
  "SearchCancelled = Error ''Search cancelled''"

text \<open>
  The abort signal is read at the head of every iteration of the line loop and in the
  catch block of \<open>search\<close>. Each read is a value of the environment; \<open>None\<close> is the
  call without a signal (\<open>signal?.aborted\<close> is then undefined, which is falsy).
\<close>

datatype checkpoint = AtLine nat | AtCatch

type_synonym signal = "(checkpoint \<Rightarrow> bool) option"

definition aborted :: "signal \<Rightarrow> checkpoint \<Rightarrow> bool" where
  "aborted sig cp = (case sig of None \<Rightarrow> False | Some f \<Rightarrow> f cp)"

definition mkResult :: "uri \<Rightarrow> nat \<Rightarrow> nat \<Rightarrow> string \<Rightarrow> nat \<Rightarrow> SearchResult" where
  "mkResult u qlen ln lineText at =
     \<lparr>uri = Some u,
      range = Some \<lparr>start = \<lparr>line = ln, character = at\<rparr>,
                    endp = \<lparr>line = ln, character = at + qlen\<rparr>\<rparr>,
      detail = lineText\<rparr>"

text \<open>
  The inner \<open>while (true)\<close> loop over one line. It has no bound of its own: with an
  empty needle \<open>indexOf\<close> always answers, so the loop is a partial function and \<open>None\<close>
  stands for a run that does not return.
\<close>

partial_function (option) scan_line ::
  "uri \<Rightarrow> nat \<Rightarrow> string \<Rightarrow> nat \<Rightarrow> string \<Rightarrow> string \<Rightarrow> nat \<Rightarrow> SearchResult list
     \<Rightarrow> SearchResult list option" where
  "scan_line u qlen needle ln lineText hay from results =
     (case indexOf hay needle from of
        None \<Rightarrow> Some results
      | Some at \<Rightarrow>
          scan_line u qlen needle ln lineText hay (at + max 1 qlen)
            (results @ [mkResult u qlen ln lineText at]))"

declare scan_line.simps [code]

text \<open>
  The \<open>for\<close> loop over the lines of the document, from line \<open>ln\<close> on: \<open>lineTexts\<close> are
  the texts of the lines still to scan.
\<close>

fun scan_lines ::
  "signal \<Rightarrow> uri \<Rightarrow> string \<Rightarrow> string \<Rightarrow> bool \<Rightarrow> string list \<Rightarrow> nat \<Rightarrow> SearchResult list
     \<Rightarrow> (js_error + SearchResult list) option" where
  "scan_lines sig u q needle caseSensitive [] ln results = Some (Inr results)"
| "scan_lines sig u q needle caseSensitive (lineText # rest) ln results =
     (if aborted sig (AtLine ln) then Some (Inl (Error ''Search cancelled''))
      else
        (let hay = (if caseSensitive then lineText else toLowerCase lineText)
         in case scan_line u (length q) needle ln lineText hay 0 results of
              None \<Rightarrow> None
            | Some results' \<Rightarrow> scan_lines sig u q needle caseSensitive rest (Suc ln) results'))"

text \<open>
  The editor's document: \<open>getText()\<close> and the texts of its lines (\<open>lineCount\<close> is
  their number, \<open>lineAt(i).text\<close> the i-th). The editor ends a line at LF, CR LF or
  CR; \<open>textDocument\<close> is the document the editor shows for a given content.
\<close>

record TextDocument =
  getText :: string
  lineTexts :: "string list"

definition CR :: char where
  "CR = CHR 0x0D"

fun splitLines :: "string \<Rightarrow> string list" where
  "splitLines [] = [[]]"
| "splitLines [c] = (if c = LF \<or> c = CR then [[], []] else [[c]])"
| "splitLines (c # d # cs) =
     (if c = CR \<and> d = LF then [] # splitLines cs
      else if c = LF \<or> c = CR then [] # splitLines (d # cs)
      else (case splitLines (d # cs) of [] \<Rightarrow> [[c]] | l # ls \<Rightarrow> (c # l) # ls))"

definition textDocument :: "string \<Rightarrow> TextDocument" where
  "textDocument content = \<lparr>getText = content, lineTexts = splitLines content\<rparr>"

text \<open>
  The collaborators of the provider and of the modal: \<open>openTextDocument\<close> answers with
  a document or fails; \<open>waitForReady\<close> and \<open>textSearcherSearch\<close> are the outcomes of
  the indexed searcher's \<open>waitForReady()\<close> and \<open>search(query, signal)\<close>; \<open>basename\<close> and
  \<open>asRelativePath\<close> are the path functions of the platform. Every call that reads the
  index or a document is recorded, in order.
\<close>

datatype host_call = WaitForReady | OpenTextDocument uri | TextSearcherSearch string

record host =
  waitForReady :: "js_error option"
  openTextDocument :: "uri \<Rightarrow> js_error + TextDocument"
  textSearcherSearch :: "string \<Rightarrow> js_error + SearchResult list"
  basename :: "string \<Rightarrow> string"
  asRelativePath :: "uri \<Rightarrow> string"

record SearchState =
  caseSensitive :: bool
  excludePatterns :: "string list"
  excludeEnabled :: bool

definition searchInSingleDocument ::
  "host \<Rightarrow> SearchState \<Rightarrow> uri \<Rightarrow> string \<Rightarrow> signal
     \<Rightarrow> host_call list \<times> (js_error + SearchResult list) option" where
  "searchInSingleDocument h st u query sig =
     (let q = trim query
      in if q = [] then ([], Some (Inr []))
         else
           (case openTextDocument h u of
              Inl e \<Rightarrow> ([OpenTextDocument u], Some (Inl e))
            | Inr doc \<Rightarrow>
                (let cs = caseSensitive st;
                     needle = (if cs then q else toLowerCase q)
                 in ([OpenTextDocument u],
                     scan_lines sig u q needle cs (lineTexts doc) 0 []))))"

text \<open>
  \<open>SearchProvider.search\<close>. \<open>thisOptions\<close> are the options of the constructor, \<open>opts\<close>
  those of the call; \<open>a ?? b\<close> is \<open>orElse a b\<close>. The second component is the console.
\<close>

record SearchOptions =
  currentFileOnly :: "bool option"
  currentFileUri :: "uri option"

definition orElse :: "'a option \<Rightarrow> 'a option \<Rightarrow> 'a option" where
  "orElse a b = (case a of None \<Rightarrow> b | Some x \<Rightarrow> Some x)"

definition optField :: "(SearchOptions \<Rightarrow> 'a option) \<Rightarrow> SearchOptions option \<Rightarrow> 'a option" where
  \<comment> \<open>\<open>options?.field\<close>\<close>
  "optField f opts = (case opts of None \<Rightarrow> None | Some r \<Rightarrow> f r)"

definition search ::
  "host \<Rightarrow> SearchState \<Rightarrow> SearchOptions option \<Rightarrow> string \<Rightarrow> signal \<Rightarrow> SearchOptions option
     \<Rightarrow> host_call list \<times> string list \<times> (js_error + SearchResult list) option" where
  "search h st thisOptions query sig opts =
     (let (calls, outcome) =
            (case waitForReady h of
               Some e \<Rightarrow> ([WaitForReady], Some (Inl e))
             | None \<Rightarrow>
                 (let effectiveCurrentFileOnly =
                        orElse (optField currentFileOnly opts) (optField currentFileOnly thisOptions);
                      effectiveUri =
                        orElse (optField currentFileUri opts) (optField currentFileUri thisOptions)
                  in case (effectiveCurrentFileOnly, effectiveUri) of
                       (Some True, Some u) \<Rightarrow>
                         (let (cs, r) = searchInSingleDocument h st u query sig
                          in (WaitForReady # cs, r))
                     | _ \<Rightarrow>
                         ([WaitForReady, TextSearcherSearch query],
                          Some (textSearcherSearch h query))))
      in case outcome of
           None \<Rightarrow> (calls, [], None)
         | Some (Inr results) \<Rightarrow> (calls, [], Some (Inr results))
         | Some (Inl e) \<Rightarrow>
             (if aborted sig AtCatch then (calls, [], Some (Inl (Error ''Search cancelled'')))
              else (calls, [''Search provider error:''], Some (Inl e))))"

text \<open>
  Modelled from the spec: the setters of the indexed searcher (\<open>TextSearcher\<close>, whose
  source is not part of the files at hand). The spec has \<open>SearchState\<close> "mutated only
  through explicit setter calls", \<open>setCaseSensitive(bool)\<close> and
  \<open>setExcludePatterns(patterns, enabled)\<close>, with the values persisted in the settings
  store of the host; \<open>fault\<close> is a failure of that store, which leaves the state as it is.
\<close>

definition TextSearcher_setCaseSensitive ::
  "js_error option \<Rightarrow> bool \<Rightarrow> SearchState \<Rightarrow> js_error + SearchState" where
  "TextSearcher_setCaseSensitive fault b st =
     (case fault of Some e \<Rightarrow> Inl e | None \<Rightarrow> Inr (st\<lparr>caseSensitive := b\<rparr>))"

definition TextSearcher_setExcludePatterns ::
  "js_error option \<Rightarrow> string list \<Rightarrow> bool \<Rightarrow> SearchState \<Rightarrow> js_error + SearchState" where
  "TextSearcher_setExcludePatterns fault patterns enabled st =
     (case fault of
        Some e \<Rightarrow> Inl e
      | None \<Rightarrow> Inr (st\<lparr>excludePatterns := patterns, excludeEnabled := enabled\<rparr>))"

text \<open>The provider hands both setters through.\<close>

definition setCaseSensitive ::
  "js_error option \<Rightarrow> bool \<Rightarrow> SearchState \<Rightarrow> js_error + SearchState" where
  "setCaseSensitive fault b st = TextSearcher_setCaseSensitive fault b st"

definition setExcludePatterns ::
  "js_error option \<Rightarrow> string list \<Rightarrow> bool \<Rightarrow> SearchState \<Rightarrow> js_error + SearchState" where
  "setExcludePatterns fault patterns enabled st =
     TextSearcher_setExcludePatterns fault patterns enabled st"

section \<open>SearchModal: the request coordinator\<close>

record ResultItem =
  filePath :: string
  fileName :: string
  relativePath :: string
  lineNumber :: nat
  lineText :: string
  itemRange :: "Range option"

datatype message =
    SearchResults "ResultItem list" string nat
  | SearchError string string nat
  | ClearPreview
  | FilePreview string string string nat string
  | CaseSensitiveChanged bool
  | HistoryUpdated "string list"

text \<open>
  A call of \<open>searchProvider.search\<close> that \<open>performSearch\<close> has started and is awaiting:
  the request id of the closure, its query, the controller whose signal it was given
  and the options of the call. A call of \<open>showFilePreview\<close> is kept the same way.
\<close>

record SearchCall =
  callId :: nat
  callQuery :: string
  callSignal :: nat
  callOptions :: SearchOptions

text \<open>
  The state of one modal. Controllers are named by the request id they were made for;
  \<open>abortedSignals\<close> are the controllers aborted so far. \<open>posted\<close> are the messages sent
  to the webview, oldest first; \<open>history\<close> is the value of the history key in the
  global state of the extension. Request ids are natural numbers (the source counts in
  doubles, exact below \<open>2^53\<close>).
\<close>

record SearchModal =
  currentResults :: "ResultItem list"
  currentSearchId :: nat
  abortController :: "nat option"
  abortedSignals :: "nat set"
  options :: "SearchOptions option"
  initialEditorUri :: "uri option"
  searchState :: SearchState
  history :: "string list"
  posted :: "message list"
  console :: "string list"
  searches :: "SearchCall list"
  previews :: "(string \<times> nat \<times> string) list"

definition MAX_HISTORY :: nat where
  "MAX_HISTORY = 20"

definition loadHistory :: "SearchModal \<Rightarrow> string list" where
  "loadHistory m = history m"

definition saveHistory :: "string list \<Rightarrow> SearchModal \<Rightarrow> SearchModal" where
  "saveHistory hist m = m\<lparr>history := take MAX_HISTORY hist\<rparr>"

definition post :: "message \<Rightarrow> SearchModal \<Rightarrow> SearchModal" where
  "post msg m = m\<lparr>posted := posted m @ [msg]\<rparr>"

definition addToHistory :: "string \<Rightarrow> SearchModal \<Rightarrow> SearchModal" where
  "addToHistory query m =
     (let q = trim query
      in if q = [] then m
         else
           (let hist = loadHistory m;
                next = q # filter (\<lambda>x. x \<noteq> q) hist
            in post (HistoryUpdated next) (saveHistory next m)))"

definition saveExcludePatterns ::
  "js_error option \<Rightarrow> string list \<Rightarrow> bool \<Rightarrow> SearchModal \<Rightarrow> SearchModal" where
  "saveExcludePatterns fault patterns enabled m =
     (case setExcludePatterns fault patterns enabled (searchState m) of
        Inr st \<Rightarrow> m\<lparr>searchState := st\<rparr>
      | Inl e \<Rightarrow> m\<lparr>console := console m @ [''Failed to save exclude patterns:'']\<rparr>)"

definition toggleCaseSensitive :: "js_error option \<Rightarrow> SearchModal \<Rightarrow> SearchModal" where
  "toggleCaseSensitive fault m =
     (let currentState = caseSensitive (searchState m);
          newState = (\<not> currentState)
      in case setCaseSensitive fault newState (searchState m) of
           Inr st \<Rightarrow> post (CaseSensitiveChanged newState) (m\<lparr>searchState := st\<rparr>)
         | Inl e \<Rightarrow> m\<lparr>console := console m @ [''Failed to toggle case sensitivity:'']\<rparr>)"

text \<open>
  \<open>performSearch\<close> up to its \<open>await\<close>: the controller of the request before is aborted,
  a new id and a new controller are made, and either the short query is answered at
  once or the call of the provider is started.
\<close>

definition performSearch :: "string \<Rightarrow> string list \<Rightarrow> bool option \<Rightarrow> SearchModal \<Rightarrow> SearchModal" where
  "performSearch query excludes searchAllFiles m =
     (let m1 = (case abortController m of
                  Some c \<Rightarrow> m\<lparr>abortedSignals := insert c (abortedSignals m), abortController := None\<rparr>
                | None \<Rightarrow> m);
          searchId = currentSearchId m1 + 1;
          m2 = m1\<lparr>currentSearchId := searchId, abortController := Some searchId\<rparr>
      in if length query < 2
         then post ClearPreview (post (SearchResults [] query searchId) (m2\<lparr>currentResults := []\<rparr>))
         else
           (let effectiveSearchAllFiles =
                  (case searchAllFiles of
                     Some b \<Rightarrow> b
                   | None \<Rightarrow> \<not> (optField currentFileOnly (options m2) = Some True))
            in m2\<lparr>searches := searches m2 @
                 [\<lparr>callId = searchId, callQuery = query, callSignal = searchId,
                   callOptions =
                     \<lparr>currentFileOnly = Some (\<not> effectiveSearchAllFiles),
                      currentFileUri =
                        orElse (optField currentFileUri (options m2)) (initialEditorUri m2)\<rparr>\<rparr>]\<rparr>))"

definition toItem :: "host \<Rightarrow> SearchResult \<Rightarrow> ResultItem" where
  "toItem h r =
     \<lparr>filePath = (case uri r of Some u \<Rightarrow> u | None \<Rightarrow> []),
      fileName = (case uri r of Some u \<Rightarrow> basename h u | None \<Rightarrow> []),
      relativePath = (case uri r of Some u \<Rightarrow> asRelativePath h u | None \<Rightarrow> []),
      lineNumber = (case range r of Some rg \<Rightarrow> line (start rg) + 1 | None \<Rightarrow> 1),
      lineText = detail r,
      itemRange = range r\<rparr>"

definition errorMessage :: "js_error \<Rightarrow> string" where
  \<comment> \<open>\<open>error instanceof Error ? error.message : 'Search failed'\<close>\<close>
  "errorMessage e = (case e of Error msg \<Rightarrow> msg | NotAnError \<Rightarrow> ''Search failed'')"

text \<open>
  \<open>performSearch\<close> from its \<open>await\<close> on: the provider has answered the call of the
  request \<open>searchId\<close> with \<open>outcome\<close>. A preview is started for the first result.
\<close>

definition performSearch_resume ::
  "host \<Rightarrow> nat \<Rightarrow> string \<Rightarrow> js_error + SearchResult list \<Rightarrow> SearchModal \<Rightarrow> SearchModal" where
  "performSearch_resume h searchId query outcome m =
     (case outcome of
        Inr results \<Rightarrow>
          (if searchId \<noteq> currentSearchId m then m
           else
             (let items = map (toItem h) results;
                  m1 = post (SearchResults items query searchId) (m\<lparr>currentResults := items\<rparr>)
              in case items of
                   first # _ \<Rightarrow>
                     m1\<lparr>previews := previews m1 @ [(filePath first, lineNumber first, query)]\<rparr>
                 | [] \<Rightarrow> post ClearPreview m1))
      | Inl e \<Rightarrow>
          (let m1 = m\<lparr>console := console m @ [''Search error:'']\<rparr>
           in if searchId = currentSearchId m1
              then post ClearPreview (post (SearchError (errorMessage e) query searchId) m1)
              else m1))"

definition showFilePreview :: "host \<Rightarrow> string \<Rightarrow> nat \<Rightarrow> string \<Rightarrow> SearchModal \<Rightarrow> SearchModal" where
  "showFilePreview h path lineNo query m =
     (case openTextDocument h path of
        Inr doc \<Rightarrow> post (FilePreview (getText doc) path (basename h path) lineNo query) m
      | Inl e \<Rightarrow> m\<lparr>console := console m @ [''Preview error:'']\<rparr>)"

text \<open>
  What can happen to a modal, one event at a time: a \<open>search\<close> message of the webview,
  the answer of the provider to a call that is still awaited (only such a call can be
  answered, and only once), the other messages, and the end of a started preview.
\<close>

datatype event =
    Search string "string list" "bool option"
  | SearchCompleted nat "js_error + SearchResult list"
  | CommitHistory string
  | ToggleCaseSensitive "js_error option"
  | SaveExcludePatterns "js_error option" "string list" bool
  | PreviewCompleted

fun step :: "host \<Rightarrow> event \<Rightarrow> SearchModal \<Rightarrow> SearchModal" where
  "step h (Search query excludes searchAllFiles) m = performSearch query excludes searchAllFiles m"
| "step h (SearchCompleted sid outcome) m =
     (case find (\<lambda>c. callId c = sid) (searches m) of
        None \<Rightarrow> m
      | Some c \<Rightarrow>
          performSearch_resume h sid (callQuery c) outcome
            (m\<lparr>searches := filter (\<lambda>c. callId c \<noteq> sid) (searches m)\<rparr>))"
| "step h (CommitHistory query) m = addToHistory query m"
| "step h (ToggleCaseSensitive fault) m = toggleCaseSensitive fault m"
| "step h (SaveExcludePatterns fault patterns enabled) m = saveExcludePatterns fault patterns enabled m"
| "step h PreviewCompleted m =
     (case previews m of
        [] \<Rightarrow> m
      | (path, lineNo, query) # rest \<Rightarrow> showFilePreview h path lineNo query (m\<lparr>previews := rest\<rparr>))"

definition run :: "host \<Rightarrow> event list \<Rightarrow> SearchModal \<Rightarrow> SearchModal" where
  "run h evs m = fold (step h) evs m"

definition newModal :: "SearchOptions option \<Rightarrow> uri option \<Rightarrow> SearchState \<Rightarrow> string list \<Rightarrow> SearchModal" where
  \<comment> \<open>the fields as the class initialises them; the settings and the history are the host's\<close>
  "newModal opts editorUri st hist =
     \<lparr>currentResults = [], currentSearchId = 0, abortController = None, abortedSignals = {},
      options = opts, initialEditorUri = editorUri, searchState = st, history = hist,
      posted = [], console = [], searches = [], previews = []\<rparr>"

section \<open>Notions used in the statements\<close>

text \<open>\<open>needle\<close> stands in \<open>hay\<close> at position \<open>k\<close>.\<close>

definition occurs_at :: "string \<Rightarrow> string \<Rightarrow> nat \<Rightarrow> bool" where
  "occurs_at needle hay k = (k + length needle \<le> length hay \<and> take (length needle) (drop k hay) = needle)"

definition fold_case :: "bool \<Rightarrow> string \<Rightarrow> string" where
  "fold_case cs s = (if cs then s else toLowerCase s)"

definition match_line :: "SearchResult \<Rightarrow> nat" where
  "match_line r = (case range r of Some rg \<Rightarrow> line (start rg) | None \<Rightarrow> 0)"

definition match_column :: "SearchResult \<Rightarrow> nat" where
  "match_column r = (case range r of Some rg \<Rightarrow> character (start rg) | None \<Rightarrow> 0)"

definition comes_before :: "SearchResult \<Rightarrow> SearchResult \<Rightarrow> bool" where
  "comes_before a b =
     (match_line a < match_line b \<or> (match_line a = match_line b \<and> match_column a < match_column b))"

definition columns_on_line :: "nat \<Rightarrow> SearchResult list \<Rightarrow> nat list" where
  "columns_on_line i rs = map match_column (filter (\<lambda>r. match_line r = i) rs)"

text \<open>The call of \<open>search\<close> for one file, once the index is ready.\<close>

definition singleFile :: "uri \<Rightarrow> SearchOptions option" where
  "singleFile u = Some \<lparr>currentFileOnly = Some True, currentFileUri = Some u\<rparr>"

text \<open>
  The texts committed by a sequence of queries, oldest first, and the list of the
  distinct ones with the most recent first.
\<close>

definition committed :: "string list \<Rightarrow> string list" where
  "committed qs = filter (\<lambda>q. q \<noteq> []) (map trim qs)"

definition recentFirst :: "string list \<Rightarrow> string list" where
  "recentFirst cs = rev (remdups cs)"



text \<open>In a state the modal can reach, no awaited call is of a request still to come.\<close>

definition pendingIssued :: "SearchModal \<Rightarrow> bool" where
  "pendingIssued m = list_all (\<lambda>c. callId c \<le> currentSearchId m) (searches m)"

subsection \<open>Concrete surroundings for the examples\<close>

text \<open>
  Concrete surroundings for the examples: a host that opens the same document for every
  uri and whose index is ready and empty, and the settings with a given case flag.
\<close>

definition hostWith :: "TextDocument \<Rightarrow> host" where
  "hostWith doc =
     \<lparr>waitForReady = None, openTextDocument = (\<lambda>_. Inr doc),
      textSearcherSearch = (\<lambda>_. Inr []), basename = (\<lambda>p. p), asRelativePath = (\<lambda>p. p)\<rparr>"

definition settings :: "bool \<Rightarrow> SearchState" where
  "settings cs = \<lparr>caseSensitive = cs, excludePatterns = [], excludeEnabled = False\<rparr>"

text \<open>A signal that is set from the read at line \<open>n\<close> on, and a host that opens no document.\<close>

definition abortedFrom :: "nat \<Rightarrow> signal" where
  "abortedFrom n = Some (\<lambda>cp. case cp of AtLine i \<Rightarrow> n \<le> i | AtCatch \<Rightarrow> True)"

definition failingHost :: "js_error \<Rightarrow> host" where
  "failingHost e =
     \<lparr>waitForReady = None, openTextDocument = (\<lambda>_. Inl e),
      textSearcherSearch = (\<lambda>_. Inr []), basename = (\<lambda>p. p), asRelativePath = (\<lambda>p. p)\<rparr>"

section \<open>Lemmas\<close>

subsection \<open>Occurrences and the scan of one line\<close>

lemma first_occurrence_Some:
  "first_occurrence needle hs = Some k \<Longrightarrow>
     occurs_at needle hs k \<and> (\<forall>j<k. \<not> occurs_at needle hs j)"
proof (induction hs arbitrary: k)
  case Nil
  then show ?case by (auto simp: occurs_at_def split: if_splits)
next
  case (Cons h hs)
  show ?case
  proof (cases "take (length needle) (h # hs) = needle")
    case True
    with Cons.prems have "k = 0" by simp
    moreover have "length needle \<le> length (h # hs)"
    proof -
      from True have "length (take (length needle) (h # hs)) = length needle" by simp
      then show ?thesis by (simp add: min_def split: if_splits)
    qed
    ultimately show ?thesis using True by (simp add: occurs_at_def)
  next
    case False
    with Cons.prems obtain k' where k': "first_occurrence needle hs = Some k'" "k = Suc k'"
      by auto
    from Cons.IH[OF k'(1)] have ih: "occurs_at needle hs k'" "\<forall>j<k'. \<not> occurs_at needle hs j"
      by auto
    have "occurs_at needle (h # hs) (Suc k')" using ih(1) by (simp add: occurs_at_def)
    moreover have "\<not> occurs_at needle (h # hs) j" if "j < Suc k'" for j
    proof (cases j)
      case 0
      then show ?thesis using False by (simp add: occurs_at_def)
    next
      case (Suc j')
      then show ?thesis using ih(2) that by (simp add: occurs_at_def)
    qed
    ultimately show ?thesis using k'(2) by blast
  qed
qed

lemma first_occurrence_None:
  "first_occurrence needle hs = None \<Longrightarrow> \<not> occurs_at needle hs j"
proof (induction hs arbitrary: j)
  case Nil
  then show ?case by (auto simp: occurs_at_def split: if_splits)
next
  case (Cons h hs)
  from Cons.prems have nt: "take (length needle) (h # hs) \<noteq> needle"
    and rec: "first_occurrence needle hs = None"
    by (auto split: if_splits)
  show ?case
  proof (cases j)
    case 0
    then show ?thesis using nt by (simp add: occurs_at_def)
  next
    case (Suc j')
    then show ?thesis using Cons.IH[OF rec, of j'] by (simp add: occurs_at_def)
  qed
qed

lemma occurs_at_drop:
  "s \<le> length hay \<Longrightarrow> occurs_at needle (drop s hay) k = occurs_at needle hay (s + k)"
  by (auto simp: occurs_at_def add.commute)

lemma indexOf_Some:
  assumes "indexOf hay needle from = Some at"
  shows "min from (length hay) \<le> at" and "occurs_at needle hay at"
    and "\<And>j. min from (length hay) \<le> j \<Longrightarrow> j < at \<Longrightarrow> \<not> occurs_at needle hay j"
proof -
  let ?s = "min from (length hay)"
  from assms obtain k where k: "first_occurrence needle (drop ?s hay) = Some k" "at = ?s + k"
    by (auto simp: indexOf_def Let_def)
  have le: "?s \<le> length hay" by simp
  from first_occurrence_Some[OF k(1)]
  have a: "occurs_at needle (drop ?s hay) k" and b: "\<forall>j<k. \<not> occurs_at needle (drop ?s hay) j"
    by auto
  show "?s \<le> at" using k(2) by simp
  show "occurs_at needle hay at" using a k(2) occurs_at_drop[OF le] by simp
  fix j assume j: "?s \<le> j" "j < at"
  then have "j - ?s < k" using k(2) by arith
  with b have "\<not> occurs_at needle (drop ?s hay) (j - ?s)" by blast
  then show "\<not> occurs_at needle hay j" using occurs_at_drop[OF le, of needle "j - ?s"] j(1) by simp
qed

lemma indexOf_None:
  assumes "indexOf hay needle from = None" and "from \<le> j"
  shows "\<not> occurs_at needle hay j"
proof
  assume occ: "occurs_at needle hay j"
  let ?s = "min from (length hay)"
  have le: "?s \<le> length hay" by simp
  from assms(1) have n: "first_occurrence needle (drop ?s hay) = None"
    by (auto simp: indexOf_def Let_def)
  from occ have "j \<le> length hay" by (simp add: occurs_at_def)
  with assms(2) have "?s \<le> j" by simp
  then have "occurs_at needle (drop ?s hay) (j - ?s)"
    using occ occurs_at_drop[OF le, of needle "j - ?s"] by simp
  with first_occurrence_None[OF n] show False by blast
qed

lemma indexOf_Some_bounds:
  assumes "indexOf hay needle from = Some at" and "needle \<noteq> []"
  shows "from \<le> at" and "at < length hay"
proof -
  from indexOf_Some(2)[OF assms(1)] have "at + length needle \<le> length hay"
    by (simp add: occurs_at_def)
  with assms(2) show lt: "at < length hay" by (cases needle) auto
  from indexOf_Some(1)[OF assms(1)] lt show "from \<le> at" by simp
qed

text \<open>
  The columns the scan of one line reports, as a total function: the leftmost occurrence
  at or after \<open>from\<close>, then the leftmost one at least \<open>stride\<close> further on, and so on.
\<close>

function occ_cols :: "string \<Rightarrow> string \<Rightarrow> nat \<Rightarrow> nat \<Rightarrow> nat list" where
  "occ_cols needle hay stride from =
     (if needle = [] \<or> stride = 0 then []
      else case indexOf hay needle from of
             None \<Rightarrow> []
           | Some at \<Rightarrow> at # occ_cols needle hay stride (at + stride))"
  by pat_completeness auto
termination
proof (relation "measure (\<lambda>(needle, hay, stride, from). length hay - from)")
  show "wf (measure (\<lambda>(needle, hay, stride, from). length hay - from))" by simp
next
  fix needle hay :: string and stride frm at :: nat
  assume a: "\<not> (needle = [] \<or> stride = 0)" "indexOf hay needle frm = Some at"
  from a have "frm \<le> at" "at < length hay"
    using indexOf_Some_bounds[of hay needle frm at] by auto
  with a(1) show "((needle, hay, stride, at + stride), (needle, hay, stride, frm))
      \<in> measure (\<lambda>(needle, hay, stride, from). length hay - from)"
    by (simp, arith)
qed

declare occ_cols.simps [simp del]

lemma scan_line_eq:
  "needle \<noteq> [] \<Longrightarrow>
   scan_line u qlen needle ln ltxt hay from results =
     Some (results @ map (mkResult u qlen ln ltxt) (occ_cols needle hay (max 1 qlen) from))"
proof (induction needle hay "max 1 qlen" "from" arbitrary: results rule: occ_cols.induct)
  case (1 needle hay frm)
  show ?case
  proof (cases "indexOf hay needle frm")
    case None
    then show ?thesis using "1.prems"
      by (subst scan_line.simps, subst occ_cols.simps) simp
  next
    case (Some at)
    have "scan_line u qlen needle ln ltxt hay (at + max 1 qlen) (results @ [mkResult u qlen ln ltxt at])
       = Some ((results @ [mkResult u qlen ln ltxt at]) @ map (mkResult u qlen ln ltxt) (occ_cols needle hay (max 1 qlen) (at + max 1 qlen)))"
      using "1.hyps"[OF _ Some "1.prems"] "1.prems" by simp
    then show ?thesis using Some "1.prems"
      by (subst scan_line.simps, subst occ_cols.simps) simp
  qed
qed

lemma occ_cols_occurs:
  "c \<in> set (occ_cols needle hay stride frm) \<Longrightarrow> occurs_at needle hay c \<and> frm \<le> c"
proof (induction needle hay stride frm rule: occ_cols.induct)
  case (1 needle hay stride frm)
  note eq = occ_cols.simps[of needle hay stride frm]
  show ?case
  proof (cases "needle = [] \<or> stride = 0")
    case True
    with "1.prems" eq show ?thesis by simp
  next
    case ne: False
    show ?thesis
    proof (cases "indexOf hay needle frm")
      case None
      with "1.prems" eq ne show ?thesis by simp
    next
      case (Some at)
      from ne have "needle \<noteq> []" by simp
      note b = indexOf_Some_bounds[OF Some this]
      from "1.prems" eq ne Some
      have "c = at \<or> c \<in> set (occ_cols needle hay stride (at + stride))" by simp
      then show ?thesis
      proof
        assume "c = at"
        then show ?thesis using indexOf_Some(2)[OF Some] b(1) by simp
      next
        assume "c \<in> set (occ_cols needle hay stride (at + stride))"
        from "1.IH"[OF ne Some this] b(1) show ?thesis by simp
      qed
    qed
  qed
qed

lemma occ_cols_sorted:
  "sorted_wrt (\<lambda>a b. a + stride \<le> b) (occ_cols needle hay stride frm)"
proof (induction needle hay stride frm rule: occ_cols.induct)
  case (1 needle hay stride frm)
  show ?case
  proof (cases "needle = [] \<or> stride = 0")
    case True
    then show ?thesis by (subst occ_cols.simps) simp
  next
    case ne: False
    show ?thesis
    proof (cases "indexOf hay needle frm")
      case None
      then show ?thesis using ne by (subst occ_cols.simps) simp
    next
      case (Some at)
      have "\<forall>c \<in> set (occ_cols needle hay stride (at + stride)). at + stride \<le> c"
        using occ_cols_occurs by blast
      with "1.IH"[OF ne Some] Some ne show ?thesis
        by (subst occ_cols.simps) simp
    qed
  qed
qed

lemma occ_cols_covers:
  assumes "needle \<noteq> []" and "0 < stride" and "occurs_at needle hay p" and "frm \<le> p"
  shows "\<exists>c \<in> set (occ_cols needle hay stride frm). c \<le> p \<and> p < c + stride"
  using assms
proof (induction needle hay stride frm rule: occ_cols.induct)
  case (1 needle hay stride frm)
  from "1.prems" have ne: "\<not> (needle = [] \<or> stride = 0)" by simp
  show ?case
  proof (cases "indexOf hay needle frm")
    case None
    from indexOf_None[OF None "1.prems"(4)] "1.prems"(3) show ?thesis by simp
  next
    case (Some at)
    have atp: "at \<le> p"
    proof (rule ccontr)
      assume "\<not> at \<le> p"
      then have "p < at" by simp
      moreover have "min frm (length hay) \<le> p" using "1.prems"(4) by simp
      ultimately show False using indexOf_Some(3)[OF Some] "1.prems"(3) by blast
    qed
    have unfold: "occ_cols needle hay stride frm = at # occ_cols needle hay stride (at + stride)"
      using ne Some by (subst occ_cols.simps) simp
    show ?thesis
    proof (cases "p < at + stride")
      case True
      with atp unfold show ?thesis by simp
    next
      case False
      then have "at + stride \<le> p" by simp
      from "1.IH"[OF ne Some "1.prems"(1,2,3) this] unfold show ?thesis by auto
    qed
  qed
qed

text \<open>The results the scan reports for one line and for the lines from \<open>ln\<close> on.\<close>

definition line_results :: "uri \<Rightarrow> string \<Rightarrow> string \<Rightarrow> bool \<Rightarrow> nat \<Rightarrow> string \<Rightarrow> SearchResult list" where
  "line_results u q needle cs ln ltxt =
     map (mkResult u (length q) ln ltxt)
       (occ_cols needle (if cs then ltxt else toLowerCase ltxt) (max 1 (length q)) 0)"

fun doc_results :: "uri \<Rightarrow> string \<Rightarrow> string \<Rightarrow> bool \<Rightarrow> nat \<Rightarrow> string list \<Rightarrow> SearchResult list" where
  "doc_results u q needle cs ln [] = []"
| "doc_results u q needle cs ln (ltxt # rest) =
     line_results u q needle cs ln ltxt @ doc_results u q needle cs (Suc ln) rest"

lemma scan_lines_eq:
  assumes "needle \<noteq> []"
    and "\<forall>i < length lts. \<not> aborted sig (AtLine (ln + i))"
  shows "scan_lines sig u q needle cs lts ln results =
           Some (Inr (results @ doc_results u q needle cs ln lts))"
  using assms(2)
proof (induction lts arbitrary: ln results)
  case Nil
  then show ?case by simp
next
  case (Cons lt lts)
  from Cons.prems have here: "\<not> aborted sig (AtLine ln)" by force
  from Cons.prems have rest: "\<forall>i < length lts. \<not> aborted sig (AtLine (Suc ln + i))" by force
  show ?case
    using here Cons.IH[OF rest] scan_line_eq[OF assms(1)]
    by (simp add: line_results_def)
qed

lemma scan_lines_cancelled:
  assumes "needle \<noteq> []" and "k < length lts" and "aborted sig (AtLine (ln + k))"
  shows "scan_lines sig u q needle cs lts ln results = Some (Inl (Error ''Search cancelled''))"
  using assms(2,3)
proof (induction lts arbitrary: ln results k)
  case Nil
  then show ?case by simp
next
  case (Cons lt lts)
  show ?case
  proof (cases "aborted sig (AtLine ln)")
    case True
    then show ?thesis by simp
  next
    case False
    with Cons.prems obtain k' where k': "k = Suc k'" by (cases k) auto
    with Cons.prems have "k' < length lts" "aborted sig (AtLine (Suc ln + k'))" by auto
    from Cons.IH[OF this] False scan_line_eq[OF assms(1)] show ?thesis by simp
  qed
qed

subsection \<open>Trimming and lower-casing\<close>

lemma toLowerCase_length: "length (toLowerCase s) = length s"
  by (simp add: toLowerCase_def)

lemma toLowerCase_Nil_iff: "toLowerCase s = [] \<longleftrightarrow> s = []"
  by (simp add: toLowerCase_def)

lemma isWhiteSpace_toLowerCase_char: "isWhiteSpace (toLowerCase_char c) = isWhiteSpace c"
proof -
  have "of_char (char_of (of_char c + 32 :: nat)) = (of_char c + 32 :: nat)"
    if "(of_char c :: nat) \<le> 222"
    using that by simp
  then show ?thesis
    by (auto simp: isWhiteSpace_def toLowerCase_char_def Let_def)
qed

lemma dropWhile_ws_toLowerCase:
  "dropWhile isWhiteSpace (toLowerCase s) = toLowerCase (dropWhile isWhiteSpace s)"
  by (induction s) (simp_all add: toLowerCase_def isWhiteSpace_toLowerCase_char)

lemma trim_toLowerCase: "trim (toLowerCase s) = toLowerCase (trim s)"
proof -
  have r: "rev (toLowerCase t) = toLowerCase (rev t)" for t
    by (simp add: toLowerCase_def rev_map)
  show ?thesis
    by (simp add: trim_def dropWhile_ws_toLowerCase r)
qed

lemma toLowerCase_char_idem: "toLowerCase_char (toLowerCase_char c) = toLowerCase_char c"
proof -
  have "of_char (char_of (of_char c + 32 :: nat)) = (of_char c + 32 :: nat)"
    if "(of_char c :: nat) \<le> 222"
    using that by simp
  then show ?thesis
    by (auto simp: toLowerCase_char_def Let_def)
qed

lemma toLowerCase_idem: "toLowerCase (toLowerCase s) = toLowerCase s"
  by (simp add: toLowerCase_def toLowerCase_char_idem)

lemma last_dropWhile: "dropWhile P xs \<noteq> [] \<Longrightarrow> last (dropWhile P xs) = last xs"
  by (induction xs) (auto split: if_splits)

lemma trim_ends:
  assumes "trim s \<noteq> []"
  shows "\<not> isWhiteSpace (hd (trim s))" and "\<not> isWhiteSpace (last (trim s))"
proof -
  let ?a = "dropWhile isWhiteSpace s"
  let ?b = "dropWhile isWhiteSpace (rev ?a)"
  from assms have b: "?b \<noteq> []" by (simp add: trim_def)
  have a: "?a \<noteq> []"
  proof
    assume "?a = []"
    then have "?b = []" by (simp only: rev.simps(1) dropWhile.simps(1))
    with b show False by contradiction
  qed
  have "last (trim s) = hd ?b" using b by (simp add: trim_def last_rev)
  then show "\<not> isWhiteSpace (last (trim s))" using b hd_dropWhile[of isWhiteSpace "rev ?a"] by simp
  have "hd (trim s) = last ?b" using b by (simp add: trim_def hd_rev)
  also have "\<dots> = last (rev ?a)" using b by (rule last_dropWhile)
  also have "\<dots> = hd ?a" using a by (simp add: last_rev)
  finally show "\<not> isWhiteSpace (hd (trim s))" using a hd_dropWhile[of isWhiteSpace s] by simp
qed

lemma trim_id:
  assumes "s = [] \<or> (\<not> isWhiteSpace (hd s) \<and> \<not> isWhiteSpace (last s))"
  shows "trim s = s"
proof (cases "s = []")
  case True
  then show ?thesis by (simp add: trim_def)
next
  case False
  with assms have h: "\<not> isWhiteSpace (hd s)" and l: "\<not> isWhiteSpace (last s)" by auto
  from False h have 1: "dropWhile isWhiteSpace s = s" by (cases s) auto
  from False l have 2: "dropWhile isWhiteSpace (rev s) = rev s"
    by (cases "rev s") (auto simp: last_rev hd_rev dest: arg_cong[where f=hd])
  show ?thesis by (simp add: trim_def 1 2)
qed

lemma trim_idem: "trim (trim s) = trim s"
  using trim_ends[of s] by (intro trim_id) blast

lemma trim_blank: "trim s = [] \<longleftrightarrow> (\<forall>c \<in> set s. isWhiteSpace c)"
proof -
  have "trim s = [] \<longleftrightarrow> dropWhile isWhiteSpace (rev (dropWhile isWhiteSpace s)) = []"
    by (simp add: trim_def)
  also have "\<dots> \<longleftrightarrow> (\<forall>c \<in> set (dropWhile isWhiteSpace s). isWhiteSpace c)"
    by (simp add: dropWhile_eq_Nil_conv)
  also have "\<dots> \<longleftrightarrow> dropWhile isWhiteSpace s = []"
    by (metis hd_dropWhile list.set_sel(1) empty_iff list.set(1))
  also have "\<dots> \<longleftrightarrow> (\<forall>c \<in> set s. isWhiteSpace c)"
    by (simp add: dropWhile_eq_Nil_conv)
  finally show ?thesis .
qed

subsection \<open>The shape and the order of the results\<close>

lemma match_line_mkResult: "match_line (mkResult u n ln ltxt c) = ln"
  by (simp add: match_line_def mkResult_def)

lemma match_column_mkResult: "match_column (mkResult u n ln ltxt c) = c"
  by (simp add: match_column_def mkResult_def)

lemma columns_on_line_append:
  "columns_on_line i (xs @ ys) = columns_on_line i xs @ columns_on_line i ys"
  by (simp add: columns_on_line_def)

lemma columns_on_line_line_results:
  "columns_on_line i (line_results u q needle cs ln ltxt) =
     (if i = ln then occ_cols needle (fold_case cs ltxt) (max 1 (length q)) 0 else [])"
  by (simp add: columns_on_line_def line_results_def fold_case_def filter_map comp_def
      match_line_mkResult match_column_mkResult)

lemma columns_on_line_doc_results:
  "columns_on_line i (doc_results u q needle cs ln lts) =
     (if ln \<le> i \<and> i < ln + length lts
      then occ_cols needle (fold_case cs (lts ! (i - ln))) (max 1 (length q)) 0 else [])"
proof (induction lts arbitrary: ln)
  case Nil
  then show ?case by (auto simp: columns_on_line_def)
next
  case (Cons a lts)
  show ?case
  proof (cases "i = ln")
    case True
    have "columns_on_line i (doc_results u q needle cs (Suc ln) lts) = []"
      unfolding Cons.IH[of "Suc ln"] using True by simp
    with True show ?thesis
      by (simp add: columns_on_line_append columns_on_line_line_results)
  next
    case False
    then have "(ln \<le> i \<and> i < ln + length (a # lts)) = (Suc ln \<le> i \<and> i < Suc ln + length lts)"
      by auto
    moreover have "Suc ln \<le> i \<Longrightarrow> (a # lts) ! (i - ln) = lts ! (i - Suc ln)"
      by (simp add: Suc_diff_le)
    ultimately show ?thesis using False
      by (simp add: columns_on_line_append columns_on_line_line_results Cons.IH)
  qed
qed

lemma in_doc_results:
  "r \<in> set (doc_results u q needle cs ln lts) \<Longrightarrow>
     \<exists>i c. i < length lts \<and> r = mkResult u (length q) (ln + i) (lts ! i) c
        \<and> c \<in> set (occ_cols needle (fold_case cs (lts ! i)) (max 1 (length q)) 0)"
proof (induction lts arbitrary: ln)
  case Nil
  then show ?case by simp
next
  case (Cons a lts)
  from Cons.prems consider
    (here) "r \<in> set (line_results u q needle cs ln a)"
    | (later) "r \<in> set (doc_results u q needle cs (Suc ln) lts)"
    by auto
  then show ?case
  proof cases
    case here
    then obtain c where "r = mkResult u (length q) ln a c"
      "c \<in> set (occ_cols needle (fold_case cs a) (max 1 (length q)) 0)"
      by (auto simp: line_results_def fold_case_def)
    then show ?thesis by (intro exI[of _ 0] exI[of _ c]) simp
  next
    case later
    from Cons.IH[OF later] obtain i c where
      "i < length lts" "r = mkResult u (length q) (Suc ln + i) (lts ! i) c"
      "c \<in> set (occ_cols needle (fold_case cs (lts ! i)) (max 1 (length q)) 0)"
      by blast
    then show ?thesis by (intro exI[of _ "Suc i"] exI[of _ c]) simp
  qed
qed

lemma line_results_sorted: "sorted_wrt comes_before (line_results u q needle cs ln ltxt)"
proof -
  have "sorted_wrt (\<lambda>a b. a + max 1 (length q) \<le> b)
          (occ_cols needle (fold_case cs ltxt) (max 1 (length q)) 0)"
    by (rule occ_cols_sorted)
  then have "sorted_wrt (\<lambda>a b. a < b) (occ_cols needle (fold_case cs ltxt) (max 1 (length q)) 0)"
    by (rule sorted_wrt_mono_rel[rotated]) simp
  then show ?thesis
    by (simp add: line_results_def fold_case_def sorted_wrt_map comes_before_def
        match_line_mkResult match_column_mkResult)
qed

lemma doc_results_sorted: "sorted_wrt comes_before (doc_results u q needle cs ln lts)"
proof (induction lts arbitrary: ln)
  case Nil
  then show ?case by simp
next
  case (Cons a lts)
  have "comes_before x y"
    if "x \<in> set (line_results u q needle cs ln a)"
      and "y \<in> set (doc_results u q needle cs (Suc ln) lts)" for x y
  proof -
    from that(1) have "match_line x = ln"
      by (auto simp: line_results_def match_line_mkResult)
    moreover from in_doc_results[OF that(2)] have "Suc ln \<le> match_line y"
      by (auto simp: match_line_mkResult)
    ultimately show ?thesis by (simp add: comes_before_def)
  qed
  then show ?case
    by (simp add: sorted_wrt_append line_results_sorted Cons.IH)
qed

subsection \<open>What the search of one document returns\<close>

lemma searchInSingleDocument_blank:
  "trim query = [] \<Longrightarrow> searchInSingleDocument h st u query sig = ([], Some (Inr []))"
  by (simp add: searchInSingleDocument_def)

lemma searchInSingleDocument_open_fails:
  "trim query \<noteq> [] \<Longrightarrow> openTextDocument h u = Inl e \<Longrightarrow>
     searchInSingleDocument h st u query sig = ([OpenTextDocument u], Some (Inl e))"
  by (simp add: searchInSingleDocument_def)

lemma searchInSingleDocument_results:
  assumes "trim query \<noteq> []" and "openTextDocument h u = Inr doc"
    and "\<forall>i < length (lineTexts doc). \<not> aborted sig (AtLine i)"
  shows "searchInSingleDocument h st u query sig =
           ([OpenTextDocument u],
            Some (Inr (doc_results u (trim query) (fold_case (caseSensitive st) (trim query))
                         (caseSensitive st) 0 (lineTexts doc))))"
proof -
  have ne: "fold_case (caseSensitive st) (trim query) \<noteq> []"
    using assms(1) by (simp add: fold_case_def toLowerCase_Nil_iff)
  from assms(3) have "\<forall>i < length (lineTexts doc). \<not> aborted sig (AtLine (0 + i))" by simp
  from scan_lines_eq[OF ne this, of u "trim query" "caseSensitive st" "[]"] assms(1,2)
  show ?thesis
    by (simp add: searchInSingleDocument_def fold_case_def Let_def)
qed

lemma searchInSingleDocument_cancelled:
  assumes "trim query \<noteq> []" and "openTextDocument h u = Inr doc"
    and "k < length (lineTexts doc)" and "aborted sig (AtLine k)"
  shows "searchInSingleDocument h st u query sig =
           ([OpenTextDocument u], Some (Inl (Error ''Search cancelled'')))"
proof -
  have ne: "fold_case (caseSensitive st) (trim query) \<noteq> []"
    using assms(1) by (simp add: fold_case_def toLowerCase_Nil_iff)
  from assms(4) have "aborted sig (AtLine (0 + k))" by simp
  from scan_lines_cancelled[OF ne assms(3) this, of u "trim query" "caseSensitive st" "[]"] assms(1,2)
  show ?thesis
    by (simp add: searchInSingleDocument_def fold_case_def Let_def)
qed

lemma searchInSingleDocument_Inr:
  assumes "snd (searchInSingleDocument h st u query sig) = Some (Inr rs)"
  shows "(trim query = [] \<and> rs = []) \<or>
         (\<exists>doc. trim query \<noteq> [] \<and> openTextDocument h u = Inr doc
            \<and> (\<forall>i < length (lineTexts doc). \<not> aborted sig (AtLine i))
            \<and> rs = doc_results u (trim query) (fold_case (caseSensitive st) (trim query))
                     (caseSensitive st) 0 (lineTexts doc))"
proof (cases "trim query = []")
  case True
  with assms show ?thesis by (simp add: searchInSingleDocument_blank)
next
  case ne: False
  show ?thesis
  proof (cases "openTextDocument h u")
    case (Inl e)
    with assms ne show ?thesis by (simp add: searchInSingleDocument_open_fails)
  next
    case (Inr doc)
    show ?thesis
    proof (cases "\<exists>k < length (lineTexts doc). aborted sig (AtLine k)")
      case True
      then obtain k where "k < length (lineTexts doc)" "aborted sig (AtLine k)" by blast
      from searchInSingleDocument_cancelled[OF ne Inr this] assms show ?thesis by simp
    next
      case False
      then have na: "\<forall>i < length (lineTexts doc). \<not> aborted sig (AtLine i)" by blast
      from searchInSingleDocument_results[OF ne Inr na] assms ne Inr na show ?thesis by simp
    qed
  qed
qed

lemma searchInSingleDocument_returns:
  "\<exists>r. snd (searchInSingleDocument h st u query sig) = Some r"
proof (cases "trim query = []")
  case True
  then show ?thesis by (simp add: searchInSingleDocument_blank)
next
  case ne: False
  show ?thesis
  proof (cases "openTextDocument h u")
    case (Inl e)
    with ne show ?thesis by (simp add: searchInSingleDocument_open_fails)
  next
    case (Inr doc)
    show ?thesis
    proof (cases "\<exists>k < length (lineTexts doc). aborted sig (AtLine k)")
      case True
      then obtain k where "k < length (lineTexts doc)" "aborted sig (AtLine k)" by blast
      from searchInSingleDocument_cancelled[OF ne Inr this] show ?thesis by simp
    next
      case False
      then have na: "\<forall>i < length (lineTexts doc). \<not> aborted sig (AtLine i)" by blast
      from searchInSingleDocument_results[OF ne Inr na] show ?thesis by simp
    qed
  qed
qed

subsection \<open>Line separators\<close>

lemma splitLines_no_LF: "l \<in> set (splitLines s) \<Longrightarrow> LF \<notin> set l"
proof (induction s arbitrary: l rule: splitLines.induct)
  case 1
  then show ?case by simp
next
  case (2 c)
  then show ?case by (auto split: if_splits)
next
  case (3 c d cs)
  show ?case
  proof (cases "c = CR \<and> d = LF")
    case True
    with 3 show ?thesis by auto
  next
    case n1: False
    show ?thesis
    proof (cases "c = LF \<or> c = CR")
      case True
      with 3 n1 show ?thesis by auto
    next
      case n2: False
      with "3.prems" n1 "3.IH"(3)[OF n1 n2] show ?thesis
        by (auto split: list.splits)
    qed
  qed
qed

lemma occurs_at_subset: "occurs_at needle hay k \<Longrightarrow> set needle \<subseteq> set hay"
proof -
  assume "occurs_at needle hay k"
  then have "needle = take (length needle) (drop k hay)" by (simp add: occurs_at_def)
  then have "set needle \<subseteq> set (drop k hay)" by (metis set_take_subset)
  then show ?thesis using set_drop_subset[of k hay] by blast
qed

lemma toLowerCase_char_LF: "toLowerCase_char c = LF \<longleftrightarrow> c = LF"
proof -
  have v: "(of_char (toLowerCase_char c) :: nat) =
             (if (65 \<le> (of_char c :: nat) \<and> (of_char c :: nat) \<le> 90)
                 \<or> (192 \<le> (of_char c :: nat) \<and> (of_char c :: nat) \<le> 222 \<and> (of_char c :: nat) \<noteq> 215)
              then of_char c + 32 else of_char c)"
    by (auto simp: toLowerCase_char_def Let_def)
  have lf: "(of_char LF :: nat) = 10" by (simp add: LF_def)
  have "toLowerCase_char c = LF \<longleftrightarrow> (of_char (toLowerCase_char c) :: nat) = of_char LF"
    by simp
  also have "\<dots> \<longleftrightarrow> (of_char c :: nat) = of_char LF"
    unfolding v lf by auto
  also have "\<dots> \<longleftrightarrow> c = LF" by simp
  finally show ?thesis .
qed

lemma LF_in_toLowerCase: "LF \<in> set (toLowerCase s) \<longleftrightarrow> LF \<in> set s"
proof -
  have "LF = toLowerCase_char c \<longleftrightarrow> c = LF" for c
    using toLowerCase_char_LF[of c] by auto
  then show ?thesis
    by (induction s) (auto simp: toLowerCase_def toLowerCase_char_LF)
qed

lemma LF_in_fold_case: "LF \<in> set (fold_case cs s) \<longleftrightarrow> LF \<in> set s"
  by (simp add: fold_case_def LF_in_toLowerCase)

subsection \<open>The search of the provider for one file\<close>

lemma search_singleFile:
  assumes "waitForReady h = None"
  shows "snd (snd (search h st thisOptions query sig (singleFile u))) =
           (case snd (searchInSingleDocument h st u query sig) of
              None \<Rightarrow> None
            | Some (Inr rs) \<Rightarrow> Some (Inr rs)
            | Some (Inl e) \<Rightarrow>
                Some (Inl (if aborted sig AtCatch then Error ''Search cancelled'' else e)))"
  using assms
  by (simp add: search_def singleFile_def orElse_def optField_def Let_def
      split: prod.splits option.splits sum.splits)

subsection \<open>The history list\<close>

lemma remdups_snoc: "remdups (xs @ [c]) = filter (\<lambda>x. x \<noteq> c) (remdups xs) @ [c]"
  by (induction xs) auto

lemma recentFirst_snoc: "recentFirst (cs @ [c]) = c # filter (\<lambda>x. x \<noteq> c) (recentFirst cs)"
  by (simp add: recentFirst_def remdups_snoc rev_filter)

lemma distinct_recentFirst: "distinct (recentFirst cs)"
  by (simp add: recentFirst_def)

lemma take_filter_take:
  "distinct xs \<Longrightarrow>
     take n (filter (\<lambda>x. x \<noteq> c) (take (Suc n) xs)) = take n (filter (\<lambda>x. x \<noteq> c) xs)"
proof (induction xs arbitrary: n)
  case Nil
  then show ?case by simp
next
  case (Cons x xs)
  show ?case
  proof (cases "x = c")
    case True
    with Cons.prems have "c \<notin> set xs" by simp
    then have "filter (\<lambda>x. x \<noteq> c) xs = xs"
      and "filter (\<lambda>x. x \<noteq> c) (take n xs) = take n xs"
      by (auto simp: filter_id_conv dest: in_set_takeD)
    with True show ?thesis by simp
  next
    case False
    show ?thesis
    proof (cases n)
      case 0
      then show ?thesis by simp
    next
      case (Suc k)
      with False Cons show ?thesis by simp
    qed
  qed
qed

lemma length_filter_neq:
  "distinct xs \<Longrightarrow> c \<in> set xs \<Longrightarrow> Suc (length (filter (\<lambda>x. x \<noteq> c) xs)) = length xs"
proof (induction xs)
  case Nil
  then show ?case by simp
next
  case (Cons x xs)
  show ?case
  proof (cases "x = c")
    case True
    with Cons.prems have "filter (\<lambda>x. x \<noteq> c) xs = xs" by (auto simp: filter_id_conv)
    with True show ?thesis by simp
  next
    case False
    with Cons show ?thesis by simp
  qed
qed

lemma history_addToHistory:
  "history (addToHistory q m) =
     (if trim q = [] then history m
      else take 20 (trim q # filter (\<lambda>x. x \<noteq> trim q) (history m)))"
  by (simp add: addToHistory_def saveHistory_def loadHistory_def post_def MAX_HISTORY_def Let_def)

lemma fold_addToHistory_snoc:
  "fold addToHistory (qs @ [q]) m = addToHistory q (fold addToHistory qs m)"
  by simp

lemma history_fold_addToHistory:
  assumes "history m = []"
  shows "history (fold addToHistory qs m) = take 20 (recentFirst (committed qs))"
proof (induction qs rule: rev_induct)
  case Nil
  then show ?case by (simp add: assms committed_def recentFirst_def)
next
  case (snoc q qs)
  let ?M = "recentFirst (committed qs)"
  show ?case
  proof (cases "trim q = []")
    case True
    then show ?thesis by (simp add: history_addToHistory snoc.IH committed_def)
  next
    case False
    then have c: "committed (qs @ [q]) = committed qs @ [trim q]" by (simp add: committed_def)
    have "history (fold addToHistory (qs @ [q]) m)
            = take 20 (trim q # filter (\<lambda>x. x \<noteq> trim q) (take 20 ?M))"
      using False by (simp add: history_addToHistory snoc.IH)
    also have "\<dots> = trim q # take 19 (filter (\<lambda>x. x \<noteq> trim q) (take (Suc 19) ?M))"
      by simp
    also have "\<dots> = trim q # take 19 (filter (\<lambda>x. x \<noteq> trim q) ?M)"
      by (simp only: take_filter_take[OF distinct_recentFirst])
    also have "\<dots> = take 20 (recentFirst (committed (qs @ [q])))"
      by (simp add: c recentFirst_snoc)
    finally show ?thesis .
  qed
qed

subsection \<open>Requests and their answers\<close>






lemma resume_keeps:
  "currentSearchId (performSearch_resume h sid q outcome m) = currentSearchId m"
  "abortController (performSearch_resume h sid q outcome m) = abortController m"
  "abortedSignals (performSearch_resume h sid q outcome m) = abortedSignals m"
  "searches (performSearch_resume h sid q outcome m) = searches m"
  by (simp_all add: performSearch_resume_def post_def Let_def split: sum.splits list.splits)







lemma pendingIssued_newModal: "pendingIssued (newModal opts editorUri st hist)"
  by (simp add: pendingIssued_def newModal_def)






lemma pendingIssued_step: "pendingIssued m \<Longrightarrow> pendingIssued (step h ev m)"
proof (cases ev)
  case (Search q ex saf)
  assume "pendingIssued m"
  then have "list_all (\<lambda>c. callId c \<le> Suc (currentSearchId m)) (searches m)"
    by (auto simp: pendingIssued_def list_all_iff)
  then show ?thesis using Search
    by (simp add: pendingIssued_def performSearch_def post_def Let_def split: option.splits)
next
  case (SearchCompleted sid outcome)
  assume p: "pendingIssued m"
  show ?thesis
  proof (cases "find (\<lambda>c. callId c = sid) (searches m)")
    case None
    with SearchCompleted p show ?thesis by simp
  next
    case (Some c)
    from p have "list_all (\<lambda>c. callId c \<le> currentSearchId m)
                   (filter (\<lambda>c. callId c \<noteq> sid) (searches m))"
      by (auto simp: pendingIssued_def list_all_iff)
    with SearchCompleted Some show ?thesis
      by (simp add: pendingIssued_def resume_keeps)
  qed
next
  case (CommitHistory q)
  assume "pendingIssued m"
  with CommitHistory show ?thesis
    by (simp add: pendingIssued_def addToHistory_def saveHistory_def post_def Let_def)
next
  case (ToggleCaseSensitive fault)
  assume "pendingIssued m"
  with ToggleCaseSensitive show ?thesis
    by (simp add: pendingIssued_def toggleCaseSensitive_def post_def Let_def split: sum.splits)
next
  case (SaveExcludePatterns fault patterns enabled)
  assume "pendingIssued m"
  with SaveExcludePatterns show ?thesis
    by (simp add: pendingIssued_def saveExcludePatterns_def split: sum.splits)
next
  case PreviewCompleted
  assume "pendingIssued m"
  with PreviewCompleted show ?thesis
    by (simp add: pendingIssued_def showFilePreview_def post_def split: list.splits sum.splits)
qed

lemma pendingIssued_run: "pendingIssued m \<Longrightarrow> pendingIssued (run h evs m)"
  unfolding run_def
  by (induction evs arbitrary: m) (simp_all add: pendingIssued_step)

section \<open>The claims\<close>




text \<open>
  Claim C2, as stated, fails: the modal tests the length of the query as typed, and the
  search of one document only refuses a query that is empty after trimming. The query
  \<open>a\<close> followed by a space has one character after trimming; the modal starts the call
  of the provider for it, and the provider opens the document and returns a match. The
  provider, called with \<open>a\<close> itself, does the same.
\<close>

theorem short_trimmed_query_is_searched:
  "length (trim ''a '') < 2 \<and>
   searches (performSearch ''a '' [] (Some False) (newModal None (Some ''f'') (settings True) []))
     = [\<lparr>callId = 1, callQuery = ''a '', callSignal = 1,
         callOptions = \<lparr>currentFileOnly = Some True, currentFileUri = Some ''f''\<rparr>\<rparr>] \<and>
   search (hostWith (textDocument ''a'')) (settings True) None ''a '' None (singleFile ''f'')
     = ([WaitForReady, OpenTextDocument ''f''], [], Some (Inr [mkResult ''f'' 1 0 ''a'' 0])) \<and>
   searchInSingleDocument (hostWith (textDocument ''a'')) (settings True) ''f'' ''a'' None
     = ([OpenTextDocument ''f''], Some (Inr [mkResult ''f'' 1 0 ''a'' 0]))"
proof (intro conjI)
  show "length (trim ''a '') < 2" by code_simp
  show "searches (performSearch ''a '' [] (Some False) (newModal None (Some ''f'') (settings True) []))
     = [\<lparr>callId = 1, callQuery = ''a '', callSignal = 1,
         callOptions = \<lparr>currentFileOnly = Some True, currentFileUri = Some ''f''\<rparr>\<rparr>]"
    by (simp add: performSearch_def newModal_def optField_def orElse_def Let_def)
  show "search (hostWith (textDocument ''a'')) (settings True) None ''a '' None (singleFile ''f'')
     = ([WaitForReady, OpenTextDocument ''f''], [], Some (Inr [mkResult ''f'' 1 0 ''a'' 0]))"
    by code_simp
  show "searchInSingleDocument (hostWith (textDocument ''a'')) (settings True) ''f'' ''a'' None
     = ([OpenTextDocument ''f''], Some (Inr [mkResult ''f'' 1 0 ''a'' 0]))"
    by code_simp
qed

text \<open>
  Claim C2, amended. A query of fewer than two characters as typed is answered by the
  modal at once: an empty result list is posted under the new request id, as a result
  and not as an error, the preview is cleared, and no call of the provider is started,
  so neither the index nor a document is read. In the search of one document a query
  that is empty after trimming returns the empty list and opens no document; \<open>search\<close>
  then only waits for the index to be ready.
\<close>

theorem short_query_empty_result:
  "(length query < 2 \<longrightarrow>
      posted (performSearch query excludes saf m)
        = posted m @ [SearchResults [] query (currentSearchId m + 1), ClearPreview] \<and>
      currentResults (performSearch query excludes saf m) = [] \<and>
      searches (performSearch query excludes saf m) = searches m \<and>
      console (performSearch query excludes saf m) = console m) \<and>
   (trim query = [] \<longrightarrow>
      searchInSingleDocument h st u query sig = ([], Some (Inr [])) \<and>
      (waitForReady h = None \<longrightarrow>
         search h st thisOptions query sig (singleFile u) = ([WaitForReady], [], Some (Inr []))))"
proof (intro conjI impI)
  assume short: "length query < 2"
  then show "posted (performSearch query excludes saf m)
        = posted m @ [SearchResults [] query (currentSearchId m + 1), ClearPreview]"
    and "currentResults (performSearch query excludes saf m) = []"
    and "searches (performSearch query excludes saf m) = searches m"
    and "console (performSearch query excludes saf m) = console m"
    by (simp_all add: performSearch_def post_def Let_def split: option.splits)
next
  assume blank: "trim query = []"
  then show b: "searchInSingleDocument h st u query sig = ([], Some (Inr []))"
    by (rule searchInSingleDocument_blank)
  assume "waitForReady h = None"
  with b show "search h st thisOptions query sig (singleFile u) = ([WaitForReady], [], Some (Inr []))"
    by (simp add: search_def singleFile_def orElse_def optField_def)
qed

theorem short_query_empty_result_witness:
  "length ''a'' < 2 \<and> trim '' '' = [] \<and>
   posted (performSearch ''a'' [] None (newModal None (Some ''f'') (settings True) []))
     = [SearchResults [] ''a'' 1, ClearPreview] \<and>
   searches (performSearch ''a'' [] None (newModal None (Some ''f'') (settings True) [])) = [] \<and>
   search (hostWith (textDocument ''a'')) (settings True) None '' '' None (singleFile ''f'')
     = ([WaitForReady], [], Some (Inr []))"
proof -
  have l: "length ''a'' < 2" by simp
  have t: "trim '' '' = []" by code_simp
  have w: "waitForReady (hostWith (textDocument ''a'')) = None" by (simp add: hostWith_def)
  have n: "posted (newModal None (Some ''f'') (settings True) []) = []"
    "searches (newModal None (Some ''f'') (settings True) []) = []"
    "currentSearchId (newModal None (Some ''f'') (settings True) []) = 0"
    by (simp_all add: newModal_def)
  from short_query_empty_result[where query = "''a''" and excludes = "[]" and saf = None
      and m = "newModal None (Some ''f'') (settings True) []"] l n
  have 1: "posted (performSearch ''a'' [] None (newModal None (Some ''f'') (settings True) []))
     = [SearchResults [] ''a'' 1, ClearPreview]"
    and 2: "searches (performSearch ''a'' [] None (newModal None (Some ''f'') (settings True) [])) = []"
    by simp_all
  from short_query_empty_result[where query = "'' ''" and h = "hostWith (textDocument ''a'')"
      and st = "settings True" and u = "''f''" and sig = None and thisOptions = None] t w
  have 3: "search (hostWith (textDocument ''a'')) (settings True) None '' '' None (singleFile ''f'')
     = ([WaitForReady], [], Some (Inr []))"
    by simp
  from l t 1 2 3 show ?thesis by simp
qed

text \<open>
  Claim C3. The search of one document scans line by line, and no line of a document
  holds a line separator: a query with a line feed inside never matches. For the
  document \<open>foo\<newline>bar\<close> and the query \<open>foo\<newline>bar\<close> the search opens the document and
  returns no match, whatever the case flag.
\<close>

theorem multi_line_query_finds_nothing:
  "(LF \<in> set (trim query) \<and> openTextDocument h u = Inr (textDocument content) \<and>
    snd (searchInSingleDocument h st u query sig) = Some (Inr rs) \<longrightarrow> rs = []) \<and>
   searchInSingleDocument (hostWith (textDocument (''foo'' @ [LF] @ ''bar''))) (settings cs) ''f''
       (''foo'' @ [LF] @ ''bar'') None
     = ([OpenTextDocument ''f''], Some (Inr []))"
proof (intro conjI impI)
  assume a: "LF \<in> set (trim query) \<and> openTextDocument h u = Inr (textDocument content) \<and>
    snd (searchInSingleDocument h st u query sig) = Some (Inr rs)"
  let ?c = "caseSensitive st"
  show "rs = []"
  proof (rule ccontr)
    assume "rs \<noteq> []"
    then obtain r where r: "r \<in> set rs" by (cases rs) auto
    from searchInSingleDocument_Inr[OF conjunct2[OF conjunct2[OF a]]] a r
    have rs: "rs = doc_results u (trim query) (fold_case ?c (trim query)) ?c 0
                     (lineTexts (textDocument content))"
      by auto
    from in_doc_results[OF r[unfolded rs]] obtain i c where
      i: "i < length (lineTexts (textDocument content))"
      and c: "c \<in> set (occ_cols (fold_case ?c (trim query))
                 (fold_case ?c (lineTexts (textDocument content) ! i)) (max 1 (length (trim query))) 0)"
      by blast
    from occ_cols_occurs[OF c]
    have "set (fold_case ?c (trim query)) \<subseteq> set (fold_case ?c (lineTexts (textDocument content) ! i))"
      using occurs_at_subset by blast
    moreover from a have "LF \<in> set (fold_case ?c (trim query))" by (simp add: LF_in_fold_case)
    ultimately have "LF \<in> set (fold_case ?c (lineTexts (textDocument content) ! i))"
      by blast
    then have "LF \<in> set (lineTexts (textDocument content) ! i)"
      by (simp add: LF_in_fold_case)
    moreover from i have "lineTexts (textDocument content) ! i \<in> set (splitLines content)"
      by (simp add: textDocument_def)
    ultimately show False using splitLines_no_LF by blast
  qed
next
  show "searchInSingleDocument (hostWith (textDocument (''foo'' @ [LF] @ ''bar''))) (settings cs) ''f''
       (''foo'' @ [LF] @ ''bar'') None
     = ([OpenTextDocument ''f''], Some (Inr []))"
    by (cases cs; simp only:; code_simp)
qed

theorem multi_line_query_finds_nothing_witness:
  "LF \<in> set (trim (''foo'' @ [LF] @ ''bar'')) \<and>
   openTextDocument (hostWith (textDocument (''foo'' @ [LF] @ ''bar''))) ''f''
     = Inr (textDocument (''foo'' @ [LF] @ ''bar'')) \<and>
   lineTexts (textDocument (''foo'' @ [LF] @ ''bar'')) = [''foo'', ''bar''] \<and>
   snd (searchInSingleDocument (hostWith (textDocument (''foo'' @ [LF] @ ''bar''))) (settings False) ''f''
         (''foo'' @ [LF] @ ''bar'') None) = Some (Inr [])"
proof -
  have 1: "LF \<in> set (trim (''foo'' @ [LF] @ ''bar''))" by code_simp
  have 2: "openTextDocument (hostWith (textDocument (''foo'' @ [LF] @ ''bar''))) ''f''
     = Inr (textDocument (''foo'' @ [LF] @ ''bar''))"
    by (simp add: hostWith_def)
  have 3: "lineTexts (textDocument (''foo'' @ [LF] @ ''bar'')) = [''foo'', ''bar'']" by code_simp
  from multi_line_query_finds_nothing[of "''foo'' @ [LF] @ ''bar''"
      "hostWith (textDocument (''foo'' @ [LF] @ ''bar''))" "''f''" "''foo'' @ [LF] @ ''bar''"
      "settings False" None "[]" False]
  have "snd (searchInSingleDocument (hostWith (textDocument (''foo'' @ [LF] @ ''bar''))) (settings False) ''f''
         (''foo'' @ [LF] @ ''bar'') None) = Some (Inr [])"
    by simp
  with 1 2 3 show ?thesis by simp
qed

text \<open>
  Claim C4. In a search of one document that returns results, every match stands where
  the trimmed query occurs in the line, both lower-cased when the case flag is off and
  both as they are when it is on; every such occurrence is reported or overlaps a
  reported one; and the line text of every result is the line of the document as it is.
  A document \<open>Hello\<close> gives one match for \<open>hello\<close> with the flag off, none with the flag
  on, and one for \<open>Hello\<close> with the flag on; the line text is \<open>Hello\<close> each time.
\<close>

theorem case_folding_and_line_text:
  "(openTextDocument h u = Inr doc \<and> trim query \<noteq> [] \<and>
    snd (searchInSingleDocument h st u query sig) = Some (Inr rs) \<longrightarrow>
      (\<forall>r \<in> set rs.
         match_line r < length (lineTexts doc) \<and>
         detail r = lineTexts doc ! match_line r \<and>
         (if caseSensitive st
          then occurs_at (trim query) (detail r) (match_column r)
          else occurs_at (toLowerCase (trim query)) (toLowerCase (detail r)) (match_column r))) \<and>
      (\<forall>i p. i < length (lineTexts doc) \<and>
         (if caseSensitive st
          then occurs_at (trim query) (lineTexts doc ! i) p
          else occurs_at (toLowerCase (trim query)) (toLowerCase (lineTexts doc ! i)) p) \<longrightarrow>
         (\<exists>r \<in> set rs. match_line r = i \<and> match_column r \<le> p
            \<and> p < match_column r + length (trim query)))) \<and>
   snd (searchInSingleDocument (hostWith (textDocument ''Hello'')) (settings False) ''f'' ''hello'' None)
     = Some (Inr [mkResult ''f'' 5 0 ''Hello'' 0]) \<and>
   snd (searchInSingleDocument (hostWith (textDocument ''Hello'')) (settings True) ''f'' ''hello'' None)
     = Some (Inr []) \<and>
   snd (searchInSingleDocument (hostWith (textDocument ''Hello'')) (settings True) ''f'' ''Hello'' None)
     = Some (Inr [mkResult ''f'' 5 0 ''Hello'' 0]) \<and>
   detail (mkResult ''f'' 5 0 ''Hello'' 0) = ''Hello''"
proof (intro conjI impI)
  assume a: "openTextDocument h u = Inr doc \<and> trim query \<noteq> [] \<and>
    snd (searchInSingleDocument h st u query sig) = Some (Inr rs)"
  let ?cs = "caseSensitive st"
  let ?q = "trim query"
  let ?needle = "fold_case ?cs ?q"
  from a have ne: "?q \<noteq> []" by simp
  then have n1: "max 1 (length ?q) = length ?q" and pos: "0 < length ?q"
    by (cases ?q; simp)+
  have nne: "?needle \<noteq> []" using ne by (simp add: fold_case_def toLowerCase_Nil_iff)
  from searchInSingleDocument_Inr[OF conjunct2[OF conjunct2[OF a]]] a
  have rs: "rs = doc_results u ?q ?needle ?cs 0 (lineTexts doc)" by auto
  show "\<forall>r \<in> set rs.
         match_line r < length (lineTexts doc) \<and>
         detail r = lineTexts doc ! match_line r \<and>
         (if caseSensitive st
          then occurs_at (trim query) (detail r) (match_column r)
          else occurs_at (toLowerCase (trim query)) (toLowerCase (detail r)) (match_column r))"
  proof
    fix r assume "r \<in> set rs"
    from in_doc_results[OF this[unfolded rs]] obtain i c where
      i: "i < length (lineTexts doc)"
      and r: "r = mkResult u (length ?q) (0 + i) (lineTexts doc ! i) c"
      and c: "c \<in> set (occ_cols ?needle (fold_case ?cs (lineTexts doc ! i)) (max 1 (length ?q)) 0)"
      by blast
    from r have d: "detail r = lineTexts doc ! i" "match_line r = i" "match_column r = c"
      by (simp_all add: mkResult_def match_line_def match_column_def)
    from occ_cols_occurs[OF c] have "occurs_at ?needle (fold_case ?cs (lineTexts doc ! i)) c" by simp
    with i d show "match_line r < length (lineTexts doc) \<and>
         detail r = lineTexts doc ! match_line r \<and>
         (if caseSensitive st
          then occurs_at (trim query) (detail r) (match_column r)
          else occurs_at (toLowerCase (trim query)) (toLowerCase (detail r)) (match_column r))"
      by (auto simp: fold_case_def split: if_splits)
  qed
  show "\<forall>i p. i < length (lineTexts doc) \<and>
         (if caseSensitive st
          then occurs_at (trim query) (lineTexts doc ! i) p
          else occurs_at (toLowerCase (trim query)) (toLowerCase (lineTexts doc ! i)) p) \<longrightarrow>
         (\<exists>r \<in> set rs. match_line r = i \<and> match_column r \<le> p
            \<and> p < match_column r + length (trim query))"
  proof (intro allI impI)
    fix i p
    assume ip: "i < length (lineTexts doc) \<and>
         (if caseSensitive st
          then occurs_at (trim query) (lineTexts doc ! i) p
          else occurs_at (toLowerCase (trim query)) (toLowerCase (lineTexts doc ! i)) p)"
    let ?hay = "fold_case ?cs (lineTexts doc ! i)"
    from ip have occ: "occurs_at ?needle ?hay p" by (simp add: fold_case_def split: if_splits)
    from occ_cols_covers[OF nne pos occ, of 0] obtain c where
      c: "c \<in> set (occ_cols ?needle ?hay (length ?q) 0)" "c \<le> p" "p < c + length ?q"
      by auto
    have "columns_on_line i rs = occ_cols ?needle ?hay (length ?q) 0"
      using ip n1 by (simp add: rs columns_on_line_doc_results)
    with c(1) have "c \<in> set (columns_on_line i rs)" by simp
    then obtain r where "r \<in> set rs" "match_line r = i" "match_column r = c"
      unfolding columns_on_line_def by auto
    with c(2,3) show "\<exists>r \<in> set rs. match_line r = i \<and> match_column r \<le> p
            \<and> p < match_column r + length (trim query)"
      by blast
  qed
next
  show "snd (searchInSingleDocument (hostWith (textDocument ''Hello'')) (settings False) ''f'' ''hello'' None)
     = Some (Inr [mkResult ''f'' 5 0 ''Hello'' 0])"
    by code_simp
  show "snd (searchInSingleDocument (hostWith (textDocument ''Hello'')) (settings True) ''f'' ''hello'' None)
     = Some (Inr [])"
    by code_simp
  show "snd (searchInSingleDocument (hostWith (textDocument ''Hello'')) (settings True) ''f'' ''Hello'' None)
     = Some (Inr [mkResult ''f'' 5 0 ''Hello'' 0])"
    by code_simp
  show "detail (mkResult ''f'' 5 0 ''Hello'' 0) = ''Hello''"
    by (simp add: mkResult_def)
qed

theorem case_folding_and_line_text_witness:
  "openTextDocument (hostWith (textDocument ''Hello'')) ''f'' = Inr (textDocument ''Hello'') \<and>
   trim ''hello'' \<noteq> [] \<and>
   snd (searchInSingleDocument (hostWith (textDocument ''Hello'')) (settings False) ''f'' ''hello'' None)
     = Some (Inr [mkResult ''f'' 5 0 ''Hello'' 0]) \<and>
   detail (mkResult ''f'' 5 0 ''Hello'' 0) = lineTexts (textDocument ''Hello'') ! 0 \<and>
   occurs_at (toLowerCase ''hello'') (toLowerCase ''Hello'') 0"
proof -
  have t: "trim ''hello'' = ''hello''" by code_simp
  have h1: "openTextDocument (hostWith (textDocument ''Hello'')) ''f'' = Inr (textDocument ''Hello'')"
    by (simp add: hostWith_def)
  have e: "snd (searchInSingleDocument (hostWith (textDocument ''Hello'')) (settings False) ''f'' ''hello'' None)
     = Some (Inr [mkResult ''f'' 5 0 ''Hello'' 0])"
    by code_simp
  have cs: "caseSensitive (settings False) = False" by (simp add: settings_def)
  note inst = case_folding_and_line_text[of "hostWith (textDocument ''Hello'')" "''f''"
      "textDocument ''Hello''" "''hello''" "settings False" None "[mkResult ''f'' 5 0 ''Hello'' 0]"]
  have d: "detail (mkResult ''f'' 5 0 ''Hello'' 0) = ''Hello''" by (simp add: mkResult_def)
  from inst h1 e t cs d
  have "detail (mkResult ''f'' 5 0 ''Hello'' 0) = lineTexts (textDocument ''Hello'') ! 0 \<and>
        occurs_at (toLowerCase ''hello'') (toLowerCase ''Hello'') 0"
    by (simp add: match_line_mkResult match_column_mkResult)
  with h1 e t show ?thesis by simp
qed



text \<open>
  Claim C6. The signal is read once at the head of every line. When a read finds it
  set, the search of the document ends with the error \<open>Search cancelled\<close> and no result,
  and so does \<open>search\<close>; when no read finds it set, the search ends with a result list.
  A failure to open the document reaches the caller of \<open>search\<close> as it is, unless the
  signal is set when it is caught: it differs from the cancellation whenever the
  failure of the host is not that very error.
\<close>

theorem cancellation_per_line:
  "(trim query \<noteq> [] \<and> openTextDocument h u = Inr doc \<and> k < length (lineTexts doc) \<and>
    aborted sig (AtLine k) \<longrightarrow>
      snd (searchInSingleDocument h st u query sig) = Some (Inl SearchCancelled) \<and>
      (waitForReady h = None \<longrightarrow>
         snd (snd (search h st thisOptions query sig (singleFile u))) = Some (Inl SearchCancelled))) \<and>
   (trim query \<noteq> [] \<and> openTextDocument h u = Inr doc \<and>
    (\<forall>i < length (lineTexts doc). \<not> aborted sig (AtLine i)) \<longrightarrow>
      (\<exists>rs. snd (searchInSingleDocument h st u query sig) = Some (Inr rs) \<and>
         (waitForReady h = None \<longrightarrow>
            snd (snd (search h st thisOptions query sig (singleFile u))) = Some (Inr rs)))) \<and>
   (trim query \<noteq> [] \<and> openTextDocument h u = Inl e \<and> waitForReady h = None \<longrightarrow>
      snd (snd (search h st thisOptions query sig (singleFile u))) =
        Some (Inl (if aborted sig AtCatch then SearchCancelled else e)) \<and>
      (\<not> aborted sig AtCatch \<and> e \<noteq> SearchCancelled \<longrightarrow>
         snd (snd (search h st thisOptions query sig (singleFile u))) \<noteq> Some (Inl SearchCancelled)))"
proof (intro conjI impI)
  assume a: "trim query \<noteq> [] \<and> openTextDocument h u = Inr doc \<and> k < length (lineTexts doc) \<and>
    aborted sig (AtLine k)"
  then have "searchInSingleDocument h st u query sig =
               ([OpenTextDocument u], Some (Inl (Error ''Search cancelled'')))"
    using searchInSingleDocument_cancelled[of query h u doc k sig st] by blast
  then show c: "snd (searchInSingleDocument h st u query sig) = Some (Inl SearchCancelled)"
    by (simp add: SearchCancelled_def)
  assume "waitForReady h = None"
  from search_singleFile[OF this, of st thisOptions query sig u] c
  show "snd (snd (search h st thisOptions query sig (singleFile u))) = Some (Inl SearchCancelled)"
    by (simp add: SearchCancelled_def)
next
  assume a: "trim query \<noteq> [] \<and> openTextDocument h u = Inr doc \<and>
    (\<forall>i < length (lineTexts doc). \<not> aborted sig (AtLine i))"
  let ?rs = "doc_results u (trim query) (fold_case (caseSensitive st) (trim query))
               (caseSensitive st) 0 (lineTexts doc)"
  from a have r: "snd (searchInSingleDocument h st u query sig) = Some (Inr ?rs)"
    using searchInSingleDocument_results[of query h u doc sig st] by simp
  have s: "waitForReady h = None \<longrightarrow>
          snd (snd (search h st thisOptions query sig (singleFile u))) = Some (Inr ?rs)"
    using search_singleFile[of h st thisOptions query sig u] r by simp
  show "\<exists>rs. snd (searchInSingleDocument h st u query sig) = Some (Inr rs) \<and>
         (waitForReady h = None \<longrightarrow>
            snd (snd (search h st thisOptions query sig (singleFile u))) = Some (Inr rs))"
    by (rule exI[of _ ?rs]) (use r s in simp)
next
  assume a: "trim query \<noteq> [] \<and> openTextDocument h u = Inl e \<and> waitForReady h = None"
  then have f: "snd (searchInSingleDocument h st u query sig) = Some (Inl e)"
    using searchInSingleDocument_open_fails[of query h u e st sig] by simp
  from a search_singleFile[of h st thisOptions query sig u] f
  show s: "snd (snd (search h st thisOptions query sig (singleFile u))) =
        Some (Inl (if aborted sig AtCatch then SearchCancelled else e))"
    by (simp add: SearchCancelled_def)
  assume "\<not> aborted sig AtCatch \<and> e \<noteq> SearchCancelled"
  with s show "snd (snd (search h st thisOptions query sig (singleFile u))) \<noteq> Some (Inl SearchCancelled)"
    by simp
qed

theorem cancellation_per_line_witness:
  "trim ''ab'' \<noteq> [] \<and>
   lineTexts (textDocument (''ab'' @ [LF] @ ''ab'')) = [''ab'', ''ab''] \<and>
   aborted (abortedFrom 1) (AtLine 1) \<and>
   snd (snd (search (hostWith (textDocument (''ab'' @ [LF] @ ''ab''))) (settings True) None ''ab''
               (abortedFrom 1) (singleFile ''f''))) = Some (Inl SearchCancelled) \<and>
   snd (snd (search (hostWith (textDocument (''ab'' @ [LF] @ ''ab''))) (settings True) None ''ab''
               None (singleFile ''f'')))
     = Some (Inr [mkResult ''f'' 2 0 ''ab'' 0, mkResult ''f'' 2 1 ''ab'' 0]) \<and>
   snd (snd (search (failingHost (Error ''cannot open'')) (settings True) None ''ab''
               None (singleFile ''f''))) = Some (Inl (Error ''cannot open'')) \<and>
   Error ''cannot open'' \<noteq> SearchCancelled"
proof -
  let ?h = "hostWith (textDocument (''ab'' @ [LF] @ ''ab''))"
  have t: "trim ''ab'' \<noteq> []" by code_simp
  have l: "lineTexts (textDocument (''ab'' @ [LF] @ ''ab'')) = [''ab'', ''ab'']" by code_simp
  have o: "openTextDocument ?h ''f'' = Inr (textDocument (''ab'' @ [LF] @ ''ab''))"
    and w: "waitForReady ?h = None"
    by (simp_all add: hostWith_def)
  have ab: "aborted (abortedFrom 1) (AtLine 1)" by (simp add: aborted_def abortedFrom_def)
  have na: "\<forall>i < length (lineTexts (textDocument (''ab'' @ [LF] @ ''ab''))). \<not> aborted None (AtLine i)"
    by (simp add: aborted_def)
  have fo: "openTextDocument (failingHost (Error ''cannot open'')) ''f'' = Inl (Error ''cannot open'')"
    and fw: "waitForReady (failingHost (Error ''cannot open'')) = None"
    by (simp_all add: failingHost_def)
  have ne: "Error ''cannot open'' \<noteq> SearchCancelled" by (simp add: SearchCancelled_def)
  have nc: "\<not> aborted None AtCatch" by (simp add: aborted_def)
  from cancellation_per_line[of "''ab''" ?h "''f''" "textDocument (''ab'' @ [LF] @ ''ab'')" 1
      "abortedFrom 1" "settings True" None] t o w ab l
  have 1: "snd (snd (search ?h (settings True) None ''ab'' (abortedFrom 1) (singleFile ''f'')))
             = Some (Inl SearchCancelled)"
    by simp
  have ev: "snd (searchInSingleDocument ?h (settings True) ''f'' ''ab'' None)
              = Some (Inr [mkResult ''f'' 2 0 ''ab'' 0, mkResult ''f'' 2 1 ''ab'' 0])"
    by code_simp
  from cancellation_per_line[of "''ab''" ?h "''f''" "textDocument (''ab'' @ [LF] @ ''ab'')" 0
      None "settings True" None] t o w na ev
  have 2: "snd (snd (search ?h (settings True) None ''ab'' None (singleFile ''f'')))
     = Some (Inr [mkResult ''f'' 2 0 ''ab'' 0, mkResult ''f'' 2 1 ''ab'' 0])"
    by auto
  from cancellation_per_line[of "''ab''" "failingHost (Error ''cannot open'')" "''f''" _ _
      None _ None "Error ''cannot open''"] t fo fw nc
  have 3: "snd (snd (search (failingHost (Error ''cannot open'')) (settings True) None ''ab''
               None (singleFile ''f''))) = Some (Inl (Error ''cannot open''))"
    by simp
  from t l ab 1 2 3 ne show ?thesis by blast
qed

text \<open>
  Claim C7. A commit with text puts the trimmed query at the head of the stored list,
  drops every other copy of it and keeps at most twenty entries; a stored list without
  duplicates stays so, and a query that is already stored is moved, the list keeping
  its entries. From an empty store, the list after any sequence of commits is the
  distinct committed texts, most recent first, cut to the twenty most recent.
\<close>

theorem history_bounded_recent_first:
  "(trim q \<noteq> [] \<longrightarrow>
      length (history (addToHistory q m)) \<le> 20 \<and>
      hd (history (addToHistory q m)) = trim q \<and>
      trim q \<notin> set (tl (history (addToHistory q m))) \<and>
      (distinct (history m) \<longrightarrow> distinct (history (addToHistory q m))) \<and>
      (distinct (history m) \<and> length (history m) \<le> 20 \<and> trim q \<in> set (history m) \<longrightarrow>
         set (history (addToHistory q m)) = set (history m) \<and>
         length (history (addToHistory q m)) = length (history m))) \<and>
   (history m = [] \<longrightarrow>
      history (fold addToHistory qs m) = take 20 (recentFirst (committed qs)) \<and>
      length (history (fold addToHistory qs m)) \<le> 20 \<and>
      distinct (history (fold addToHistory qs m)))"
proof (intro conjI impI)
  assume ne: "trim q \<noteq> []"
  let ?c = "trim q"
  let ?rest = "filter (\<lambda>x. x \<noteq> ?c) (history m)"
  have h: "history (addToHistory q m) = ?c # take 19 ?rest"
    using ne by (simp add: history_addToHistory)
  show "length (history (addToHistory q m)) \<le> 20" by (simp add: h)
  show "hd (history (addToHistory q m)) = trim q" by (simp add: h)
  show "trim q \<notin> set (tl (history (addToHistory q m)))"
    by (auto simp: h dest: in_set_takeD)
  {
    assume "distinct (history m)"
    then show "distinct (history (addToHistory q m))"
      by (auto simp: h dest: in_set_takeD)
  }
  {
    assume a: "distinct (history m) \<and> length (history m) \<le> 20 \<and> trim q \<in> set (history m)"
    then have "length ?rest = length (history m) - 1"
      using length_filter_neq[of "history m" ?c] by simp
    with a have short: "length ?rest \<le> 19" by (simp, arith)
    then have t: "take 19 ?rest = ?rest" by simp
    from a show "set (history (addToHistory q m)) = set (history m)"
      by (auto simp: h t)
    from a have "0 < length (history m)" by (cases "history m") auto
    with \<open>length ?rest = length (history m) - 1\<close>
    show "length (history (addToHistory q m)) = length (history m)"
      by (simp add: h t)
  }
next
  assume e: "history m = []"
  show eq: "history (fold addToHistory qs m) = take 20 (recentFirst (committed qs))"
    by (rule history_fold_addToHistory[OF e])
  show "length (history (fold addToHistory qs m)) \<le> 20" by (simp add: eq)
  show "distinct (history (fold addToHistory qs m))"
    by (simp add: eq distinct_take distinct_recentFirst)
qed

theorem history_bounded_recent_first_witness:
  "trim '' foo '' \<noteq> [] \<and>
   history (newModal None None (settings True) []) = [] \<and>
   history (fold addToHistory [''foo'', ''bar'', '' foo '', ''  ''] (newModal None None (settings True) []))
     = [''foo'', ''bar''] \<and>
   hd (history (addToHistory '' foo '' (newModal None None (settings True) [''bar'', ''foo'']))) = ''foo'' \<and>
   length (history (addToHistory '' foo '' (newModal None None (settings True) [''bar'', ''foo'']))) = 2"
proof -
  have t: "trim '' foo '' = ''foo''" by code_simp
  have c: "take 20 (recentFirst (committed [''foo'', ''bar'', '' foo '', ''  ''])) = [''foo'', ''bar'']"
    by code_simp
  have e: "history (newModal None None (settings True) []) = []" by (simp add: newModal_def)
  have h: "history (newModal None None (settings True) [''bar'', ''foo'']) = [''bar'', ''foo'']"
    by (simp add: newModal_def)
  from history_bounded_recent_first[of "'' foo ''" "newModal None None (settings True) []"
      "[''foo'', ''bar'', '' foo '', ''  '']"] e c
  have 1: "history (fold addToHistory [''foo'', ''bar'', '' foo '', ''  ''] (newModal None None (settings True) []))
     = [''foo'', ''bar'']"
    by simp
  from history_bounded_recent_first[of "'' foo ''" "newModal None None (settings True) [''bar'', ''foo'']" "[]"]
    t h
  have 2: "hd (history (addToHistory '' foo '' (newModal None None (settings True) [''bar'', ''foo'']))) = ''foo''"
    and 3: "length (history (addToHistory '' foo '' (newModal None None (settings True) [''bar'', ''foo'']))) = 2"
    by simp_all
  from t e 1 2 3 show ?thesis by simp
qed

text \<open>
  Claim C8. The results of a search of one document come in ascending order of line,
  and within a line in ascending order of column; every result carries its range.
\<close>

theorem results_in_line_column_order:
  assumes "snd (searchInSingleDocument h st u query sig) = Some (Inr rs)"
  shows "sorted_wrt comes_before rs \<and> (\<forall>r \<in> set rs. range r \<noteq> None)"
proof -
  from searchInSingleDocument_Inr[OF assms] consider
    (blank) "rs = []"
    | (scanned) doc :: TextDocument where
      "rs = doc_results u (trim query) (fold_case (caseSensitive st) (trim query))
              (caseSensitive st) 0 (lineTexts doc)"
    by blast
  then show ?thesis
  proof cases
    case blank
    then show ?thesis by simp
  next
    case scanned
    have "range r \<noteq> None" if "r \<in> set rs" for r
      using in_doc_results[OF that[unfolded scanned]] by (auto simp: mkResult_def)
    then show ?thesis using scanned doc_results_sorted by simp
  qed
qed

theorem results_in_line_column_order_witness:
  "snd (searchInSingleDocument (hostWith (textDocument (''xab'' @ [LF] @ ''abab''))) (settings True)
          ''f'' ''ab'' None)
     = Some (Inr [mkResult ''f'' 2 0 ''xab'' 1, mkResult ''f'' 2 1 ''abab'' 0,
                  mkResult ''f'' 2 1 ''abab'' 2]) \<and>
   sorted_wrt comes_before
     [mkResult ''f'' 2 0 ''xab'' 1, mkResult ''f'' 2 1 ''abab'' 0, mkResult ''f'' 2 1 ''abab'' 2]"
proof -
  have e: "snd (searchInSingleDocument (hostWith (textDocument (''xab'' @ [LF] @ ''abab''))) (settings True)
          ''f'' ''ab'' None)
     = Some (Inr [mkResult ''f'' 2 0 ''xab'' 1, mkResult ''f'' 2 1 ''abab'' 0,
                  mkResult ''f'' 2 1 ''abab'' 2])"
    by code_simp
  from results_in_line_column_order[OF e] e show ?thesis by blast
qed

text \<open>
  Claim C9. The setters change only their own fields of the settings (as modelled from
  the spec); the modal's \<open>toggleCaseSensitive\<close> and \<open>saveExcludePatterns\<close> start no call
  of the provider's search, leave the current results, the request id, the controller
  and the started previews as they are, and post no result: the toggle posts the new
  flag and nothing else.
\<close>

theorem setters_do_not_search:
  "(setCaseSensitive None b st = Inr (st\<lparr>caseSensitive := b\<rparr>) \<and>
    setExcludePatterns None patterns enabled st
      = Inr (st\<lparr>excludePatterns := patterns, excludeEnabled := enabled\<rparr>)) \<and>
   (currentResults (toggleCaseSensitive fault m) = currentResults m \<and>
    currentSearchId (toggleCaseSensitive fault m) = currentSearchId m \<and>
    searches (toggleCaseSensitive fault m) = searches m \<and>
    previews (toggleCaseSensitive fault m) = previews m \<and>
    abortController (toggleCaseSensitive fault m) = abortController m \<and>
    abortedSignals (toggleCaseSensitive fault m) = abortedSignals m \<and>
    excludePatterns (searchState (toggleCaseSensitive fault m)) = excludePatterns (searchState m) \<and>
    excludeEnabled (searchState (toggleCaseSensitive fault m)) = excludeEnabled (searchState m) \<and>
    (fault = None \<longrightarrow>
       caseSensitive (searchState (toggleCaseSensitive fault m)) = (\<not> caseSensitive (searchState m)) \<and>
       posted (toggleCaseSensitive fault m)
         = posted m @ [CaseSensitiveChanged (\<not> caseSensitive (searchState m))]) \<and>
    (fault \<noteq> None \<longrightarrow>
       searchState (toggleCaseSensitive fault m) = searchState m \<and>
       posted (toggleCaseSensitive fault m) = posted m)) \<and>
   (currentResults (saveExcludePatterns fault patterns enabled m) = currentResults m \<and>
    currentSearchId (saveExcludePatterns fault patterns enabled m) = currentSearchId m \<and>
    searches (saveExcludePatterns fault patterns enabled m) = searches m \<and>
    previews (saveExcludePatterns fault patterns enabled m) = previews m \<and>
    abortController (saveExcludePatterns fault patterns enabled m) = abortController m \<and>
    abortedSignals (saveExcludePatterns fault patterns enabled m) = abortedSignals m \<and>
    posted (saveExcludePatterns fault patterns enabled m) = posted m \<and>
    caseSensitive (searchState (saveExcludePatterns fault patterns enabled m))
      = caseSensitive (searchState m) \<and>
    (fault = None \<longrightarrow>
       excludePatterns (searchState (saveExcludePatterns fault patterns enabled m)) = patterns \<and>
       excludeEnabled (searchState (saveExcludePatterns fault patterns enabled m)) = enabled) \<and>
    (fault \<noteq> None \<longrightarrow>
       searchState (saveExcludePatterns fault patterns enabled m) = searchState m))"
proof (intro conjI)
  show "setCaseSensitive None b st = Inr (st\<lparr>caseSensitive := b\<rparr>)"
    by (simp add: setCaseSensitive_def TextSearcher_setCaseSensitive_def)
  show "setExcludePatterns None patterns enabled st
      = Inr (st\<lparr>excludePatterns := patterns, excludeEnabled := enabled\<rparr>)"
    by (simp add: setExcludePatterns_def TextSearcher_setExcludePatterns_def)
next
  note t = toggleCaseSensitive_def setCaseSensitive_def TextSearcher_setCaseSensitive_def
    post_def Let_def
  show "currentResults (toggleCaseSensitive fault m) = currentResults m"
    by (cases fault) (simp_all add: t)
  show "currentSearchId (toggleCaseSensitive fault m) = currentSearchId m"
    by (cases fault) (simp_all add: t)
  show "searches (toggleCaseSensitive fault m) = searches m"
    by (cases fault) (simp_all add: t)
  show "previews (toggleCaseSensitive fault m) = previews m"
    by (cases fault) (simp_all add: t)
  show "abortController (toggleCaseSensitive fault m) = abortController m"
    by (cases fault) (simp_all add: t)
  show "abortedSignals (toggleCaseSensitive fault m) = abortedSignals m"
    by (cases fault) (simp_all add: t)
  show "excludePatterns (searchState (toggleCaseSensitive fault m)) = excludePatterns (searchState m)"
    by (cases fault) (simp_all add: t)
  show "excludeEnabled (searchState (toggleCaseSensitive fault m)) = excludeEnabled (searchState m)"
    by (cases fault) (simp_all add: t)
  show "fault = None \<longrightarrow>
       caseSensitive (searchState (toggleCaseSensitive fault m)) = (\<not> caseSensitive (searchState m)) \<and>
       posted (toggleCaseSensitive fault m)
         = posted m @ [CaseSensitiveChanged (\<not> caseSensitive (searchState m))]"
    by (simp add: t)
  show "fault \<noteq> None \<longrightarrow>
       searchState (toggleCaseSensitive fault m) = searchState m \<and>
       posted (toggleCaseSensitive fault m) = posted m"
    by (cases fault) (simp_all add: t)
next
  note s = saveExcludePatterns_def setExcludePatterns_def TextSearcher_setExcludePatterns_def
  show "currentResults (saveExcludePatterns fault patterns enabled m) = currentResults m"
    by (cases fault) (simp_all add: s)
  show "currentSearchId (saveExcludePatterns fault patterns enabled m) = currentSearchId m"
    by (cases fault) (simp_all add: s)
  show "searches (saveExcludePatterns fault patterns enabled m) = searches m"
    by (cases fault) (simp_all add: s)
  show "previews (saveExcludePatterns fault patterns enabled m) = previews m"
    by (cases fault) (simp_all add: s)
  show "abortController (saveExcludePatterns fault patterns enabled m) = abortController m"
    by (cases fault) (simp_all add: s)
  show "abortedSignals (saveExcludePatterns fault patterns enabled m) = abortedSignals m"
    by (cases fault) (simp_all add: s)
  show "posted (saveExcludePatterns fault patterns enabled m) = posted m"
    by (cases fault) (simp_all add: s)
  show "caseSensitive (searchState (saveExcludePatterns fault patterns enabled m))
      = caseSensitive (searchState m)"
    by (cases fault) (simp_all add: s)
  show "fault = None \<longrightarrow>
       excludePatterns (searchState (saveExcludePatterns fault patterns enabled m)) = patterns \<and>
       excludeEnabled (searchState (saveExcludePatterns fault patterns enabled m)) = enabled"
    by (simp add: s)
  show "fault \<noteq> None \<longrightarrow>
       searchState (saveExcludePatterns fault patterns enabled m) = searchState m"
    by (cases fault) (simp_all add: s)
qed

theorem setters_do_not_search_witness:
  "caseSensitive (searchState (toggleCaseSensitive None (newModal None None (settings False) [])))
     = True \<and>
   posted (toggleCaseSensitive None (newModal None None (settings False) []))
     = [CaseSensitiveChanged True] \<and>
   searches (toggleCaseSensitive None (newModal None None (settings False) [])) = [] \<and>
   excludePatterns (searchState
       (saveExcludePatterns None [''node_modules''] True (newModal None None (settings False) [])))
     = [''node_modules''] \<and>
   searches (saveExcludePatterns None [''node_modules''] True (newModal None None (settings False) []))
     = [] \<and>
   searchState (saveExcludePatterns (Some NotAnError) [''node_modules''] True
       (newModal None None (settings False) [])) = settings False"
proof -
  let ?m = "newModal None None (settings False) []"
  have n: "posted ?m = []" "searches ?m = []" "searchState ?m = settings False"
    "caseSensitive (settings False) = False"
    by (simp_all add: newModal_def settings_def)
  note a = setters_do_not_search[where fault = None and m = ?m and patterns = "[''node_modules'']"
      and enabled = True]
  note b = setters_do_not_search[where fault = "Some NotAnError" and m = ?m
      and patterns = "[''node_modules'']" and enabled = True]
  from a n have 1: "caseSensitive (searchState (toggleCaseSensitive None ?m)) = True"
    and 2: "posted (toggleCaseSensitive None ?m) = [CaseSensitiveChanged True]"
    and 3: "searches (toggleCaseSensitive None ?m) = []"
    and 4: "excludePatterns (searchState (saveExcludePatterns None [''node_modules''] True ?m))
              = [''node_modules'']"
    and 5: "searches (saveExcludePatterns None [''node_modules''] True ?m) = []"
    by simp_all
  from b n have 6: "searchState (saveExcludePatterns (Some NotAnError) [''node_modules''] True ?m)
      = settings False"
    by simp
  from 1 2 3 4 5 6 show ?thesis by simp
qed

text \<open>
  Claim C10. The search of one document works on the trimmed query: the query and its
  trimmed form give the same answer; every reported range lies in one line, starts at
  the column of the match and is as long as the trimmed query, and the case-folded
  trimmed query stands at that column of the case-folded line; a query of white space
  only is answered with the empty list and the document is not opened.
\<close>

theorem query_is_trimmed:
  "searchInSingleDocument h st u query sig = searchInSingleDocument h st u (trim query) sig \<and>
   (snd (searchInSingleDocument h st u query sig) = Some (Inr rs) \<longrightarrow>
      (\<forall>r \<in> set rs. \<exists>rg. range r = Some rg \<and> line (endp rg) = line (start rg) \<and>
          character (endp rg) = character (start rg) + length (trim query) \<and>
          occurs_at (fold_case (caseSensitive st) (trim query))
            (fold_case (caseSensitive st) (detail r)) (character (start rg)))) \<and>
   ((\<forall>c \<in> set query. isWhiteSpace c) \<longrightarrow>
      searchInSingleDocument h st u query sig = ([], Some (Inr [])))"
proof (intro conjI impI)
  show "searchInSingleDocument h st u query sig = searchInSingleDocument h st u (trim query) sig"
    by (simp add: searchInSingleDocument_def trim_idem)
next
  assume res: "snd (searchInSingleDocument h st u query sig) = Some (Inr rs)"
  show "\<forall>r \<in> set rs. \<exists>rg. range r = Some rg \<and> line (endp rg) = line (start rg) \<and>
          character (endp rg) = character (start rg) + length (trim query) \<and>
          occurs_at (fold_case (caseSensitive st) (trim query))
            (fold_case (caseSensitive st) (detail r)) (character (start rg))"
  proof
    fix r assume r: "r \<in> set rs"
    from searchInSingleDocument_Inr[OF res] r obtain doc :: TextDocument where
      rs: "rs = doc_results u (trim query) (fold_case (caseSensitive st) (trim query))
                  (caseSensitive st) 0 (lineTexts doc)"
      by auto
    from in_doc_results[OF r[unfolded rs]] obtain i c where
      ic: "r = mkResult u (length (trim query)) (0 + i) (lineTexts doc ! i) c"
        "c \<in> set (occ_cols (fold_case (caseSensitive st) (trim query))
                  (fold_case (caseSensitive st) (lineTexts doc ! i)) (max 1 (length (trim query))) 0)"
      by blast
    from occ_cols_occurs[OF ic(2)] ic(1)
    show "\<exists>rg. range r = Some rg \<and> line (endp rg) = line (start rg) \<and>
          character (endp rg) = character (start rg) + length (trim query) \<and>
          occurs_at (fold_case (caseSensitive st) (trim query))
            (fold_case (caseSensitive st) (detail r)) (character (start rg))"
      by (simp add: mkResult_def)
  qed
next
  assume "\<forall>c \<in> set query. isWhiteSpace c"
  then have "trim query = []" by (simp add: trim_blank)
  then show "searchInSingleDocument h st u query sig = ([], Some (Inr []))"
    by (rule searchInSingleDocument_blank)
qed

theorem query_is_trimmed_witness:
  "searchInSingleDocument (hostWith (textDocument ''xab'')) (settings True) ''f'' '' ab  '' None
     = searchInSingleDocument (hostWith (textDocument ''xab'')) (settings True) ''f'' ''ab'' None \<and>
   snd (searchInSingleDocument (hostWith (textDocument ''xab'')) (settings True) ''f'' '' ab  '' None)
     = Some (Inr [mkResult ''f'' 2 0 ''xab'' 1]) \<and>
   (\<exists>rg. range (mkResult ''f'' 2 0 ''xab'' 1) = Some rg \<and>
      character (endp rg) = character (start rg) + 2) \<and>
   searchInSingleDocument (hostWith (textDocument ''xab'')) (settings True) ''f'' ''   '' None
     = ([], Some (Inr []))"
proof -
  have t: "trim '' ab  '' = ''ab''" by code_simp
  have e: "snd (searchInSingleDocument (hostWith (textDocument ''xab'')) (settings True) ''f'' '' ab  '' None)
     = Some (Inr [mkResult ''f'' 2 0 ''xab'' 1])"
    by code_simp
  have w: "\<forall>c \<in> set ''   ''. isWhiteSpace c" by (simp add: isWhiteSpace_def)
  note a = query_is_trimmed[of "hostWith (textDocument ''xab'')" "settings True" "''f''" "'' ab  ''" None
      "[mkResult ''f'' 2 0 ''xab'' 1]"]
  note b = query_is_trimmed[of "hostWith (textDocument ''xab'')" "settings True" "''f''" "''   ''" None "[]"]
  from a e t have 1: "searchInSingleDocument (hostWith (textDocument ''xab'')) (settings True) ''f'' '' ab  '' None
     = searchInSingleDocument (hostWith (textDocument ''xab'')) (settings True) ''f'' ''ab'' None"
    by simp
  from a e t have 2: "\<exists>rg. range (mkResult ''f'' 2 0 ''xab'' 1) = Some rg \<and>
      character (endp rg) = character (start rg) + 2"
    by auto
  from b w have 3: "searchInSingleDocument (hostWith (textDocument ''xab'')) (settings True) ''f'' ''   '' None
     = ([], Some (Inr []))"
    by blast
  from 1 2 3 e show ?thesis by blast
qed

end
